theory Spec2Isabelle
  imports Main "HOL-Library.Sublist"
begin

section \<open>Python strings\<close>

text \<open>
  A Python \<open>str\<close> is a sequence of Unicode code points. A code point is a natural
  number, so that the whitespace and line-break classes of CPython can be written out in
  full (they reach beyond Latin-1). \<open>lit\<close> turns an ASCII literal into such a string.
\<close>

type_synonym pychar = nat
type_synonym pystr = "pychar list"

definition lit :: "string \<Rightarrow> pystr" where
  "lit s = map of_char s"

definition HASH :: pychar where "HASH = 35"
definition LBRACE :: pychar where "LBRACE = 123"
definition RBRACE :: pychar where "RBRACE = 125"
definition SEMI :: pychar where "SEMI = 59"
definition DQUOTE :: pychar where "DQUOTE = 34"
definition SQUOTE :: pychar where "SQUOTE = 39"
definition SLASH :: pychar where "SLASH = 47"
definition LF :: pychar where "LF = 10"
definition CR :: pychar where "CR = 13"

text \<open>
  \<open>Py_UNICODE_ISSPACE\<close>: the class that \<open>str.strip()\<close> removes and that \<open>\s\<close> matches in
  a pattern compiled from a \<open>str\<close>.
\<close>

definition isspace :: "pychar \<Rightarrow> bool" where
  "isspace c =
     ((9 \<le> c \<and> c \<le> 13) \<or> (28 \<le> c \<and> c \<le> 32) \<or> c = 133 \<or> c = 160 \<or> c = 5760
      \<or> (8192 \<le> c \<and> c \<le> 8202) \<or> c = 8232 \<or> c = 8233 \<or> c = 8239 \<or> c = 8287
      \<or> c = 12288)"

text \<open>\<open>Py_UNICODE_ISLINEBREAK\<close>: where \<open>str.splitlines\<close> cuts.\<close>

definition islinebreak :: "pychar \<Rightarrow> bool" where
  "islinebreak c =
     ((10 \<le> c \<and> c \<le> 13) \<or> (28 \<le> c \<and> c \<le> 30) \<or> c = 133 \<or> c = 8232 \<or> c = 8233)"

text \<open>
  \<open>text.splitlines(keepends=True)\<close>: every line keeps its line break, \<open>\r\n\<close> is one
  break, and a last line without a break is kept when it is not empty. The first
  argument is the line read so far.
\<close>

fun splitlines_from :: "pystr \<Rightarrow> pystr \<Rightarrow> pystr list" where
  "splitlines_from cur [] = (if cur = [] then [] else [cur])"
| "splitlines_from cur (c # cs) =
     (if \<not> islinebreak c then splitlines_from (cur @ [c]) cs
      else (case cs of
              [] \<Rightarrow> [cur @ [c]]
            | d # ds \<Rightarrow>
                if c = CR \<and> d = LF then (cur @ [c, d]) # splitlines_from [] ds
                else (cur @ [c]) # splitlines_from [] cs))"

definition splitlines_keepends :: "pystr \<Rightarrow> pystr list" where
  "splitlines_keepends text = splitlines_from [] text"

text \<open>\<open>s.strip()\<close>, \<open>s.rstrip(ch)\<close> for a one-character argument, and the prefix and suffix tests.\<close>

definition lstrip_ws :: "pystr \<Rightarrow> pystr" where
  "lstrip_ws s = dropWhile isspace s"

definition rstrip_ws :: "pystr \<Rightarrow> pystr" where
  "rstrip_ws s = rev (dropWhile isspace (rev s))"

definition strip_ws :: "pystr \<Rightarrow> pystr" where
  "strip_ws s = rstrip_ws (lstrip_ws s)"

definition rstrip_char :: "pychar \<Rightarrow> pystr \<Rightarrow> pystr" where
  "rstrip_char ch s = rev (dropWhile (\<lambda>x. x = ch) (rev s))"

definition startswith :: "pystr \<Rightarrow> pystr \<Rightarrow> bool" where
  "startswith s p = (take (length p) s = p)"

definition endswith :: "pystr \<Rightarrow> pystr \<Rightarrow> bool" where
  "endswith s p = (length p \<le> length s \<and> drop (length s - length p) s = p)"

definition removeprefix :: "pystr \<Rightarrow> pystr \<Rightarrow> pystr" where
  "removeprefix p s = (if startswith s p then drop (length p) s else s)"

text \<open>
  \<open>s.split(sep, 1)\<close> for a one-character separator: the text before the first
  separator and the text after it, or the whole string alone when it has none.
\<close>

definition split_once :: "pychar \<Rightarrow> pystr \<Rightarrow> pystr list" where
  "split_once sep s =
     (if sep \<in> set s
      then [takeWhile (\<lambda>x. x \<noteq> sep) s, tl (dropWhile (\<lambda>x. x \<noteq> sep) s)]
      else [s])"

section \<open>Exceptions\<close>

text \<open>
  What the module can raise is a value: a subscript out of range is \<open>IndexError\<close>, and
  reading a path that is no readable file is \<open>OSError\<close>. A function that may raise
  returns \<open>py_error + 'a\<close>, with \<open>Inl\<close> for the exception.
\<close>

datatype py_error = IndexError | OSError

definition py_getitem :: "'a list \<Rightarrow> nat \<Rightarrow> py_error + 'a" where
  "py_getitem xs i = (if i < length xs then Inr (xs ! i) else Inl IndexError)"

section \<open>The comment stripper and the character counter\<close>

text \<open>\<open>_strip_comments\<close>: \<open>line.split("#", 1)[0]\<close>.\<close>

definition strip_comments :: "pystr \<Rightarrow> py_error + pystr" where
  "strip_comments line = py_getitem (split_once HASH line) 0"

text \<open>\<open>_count_char\<close>: \<open>text.count(char)\<close> for a one-character \<open>char\<close>.\<close>

definition count_char :: "pystr \<Rightarrow> pychar \<Rightarrow> nat" where
  "count_char text ch = length (filter (\<lambda>x. x = ch) text)"

section \<open>Regular expressions\<close>

text \<open>
  The patterns of the module use a small part of Python's \<open>re\<close>: the anchors \<open>^\<close> and
  \<open>$\<close>, single characters, the classes \<open>\s\<close> and \<open>[^;]\<close>, the greedy quantifiers \<open>*\<close> and
  \<open>+\<close> on one character class, and one capture group around a quantified class. A
  pattern is the list of its items, in the order it is written.
\<close>

datatype cset = Ws | Not_Ch pychar | Ch pychar

fun in_cset :: "cset \<Rightarrow> pychar \<Rightarrow> bool" where
  "in_cset Ws c = isspace c"
| "in_cset (Not_Ch a) c = (c \<noteq> a)"
| "in_cset (Ch a) c = (c = a)"

text \<open>The flag of \<open>Star\<close> and \<open>Plus\<close> says whether the item stands in capture group 1.\<close>

datatype rx = Bol | Eol | One cset | Star cset bool | Plus cset bool

text \<open>
  The backtracking matcher, as \<open>re\<close> runs a pattern from a given position: a greedy
  quantifier takes as many characters as it can and gives them back one at a time when
  the rest of the pattern fails. \<open>pos\<close> is the number of characters read so far, \<open>s\<close> the
  text left, \<open>g\<close> the text of group 1 so far; the result is the text of group 1 when the
  pattern matches. Without \<open>re.MULTILINE\<close>, \<open>^\<close> holds at position 0 only and \<open>$\<close> holds
  at the end of the text and before a newline that ends it.
\<close>

fun re_run :: "rx list \<Rightarrow> nat \<Rightarrow> pystr \<Rightarrow> pystr \<Rightarrow> pystr option" where
  "re_run [] pos s g = Some g"
| "re_run (Bol # r) pos s g = (if pos = 0 then re_run r pos s g else None)"
| "re_run (Eol # r) pos s g = (if s = [] \<or> s = [LF] then re_run r pos s g else None)"
| "re_run (One c # r) pos [] g = None"
| "re_run (One c # r) pos (x # xs) g =
     (if in_cset c x then re_run r (Suc pos) xs g else None)"
| "re_run (Star c cap # r) pos [] g = re_run r pos [] g"
| "re_run (Star c cap # r) pos (x # xs) g =
     (if in_cset c x
      then (case re_run (Star c cap # r) (Suc pos) xs (if cap then g @ [x] else g) of
              Some res \<Rightarrow> Some res
            | None \<Rightarrow> re_run r pos (x # xs) g)
      else re_run r pos (x # xs) g)"
| "re_run (Plus c cap # r) pos [] g = None"
| "re_run (Plus c cap # r) pos (x # xs) g =
     (if in_cset c x
      then re_run (Star c cap # r) (Suc pos) xs (if cap then g @ [x] else g)
      else None)"

text \<open>\<open>pattern.match(s)\<close>: the pattern run at the start of \<open>s\<close>; \<open>None\<close> when it fails.\<close>

definition re_match :: "rx list \<Rightarrow> pystr \<Rightarrow> pystr option" where
  "re_match pattern s = re_run pattern 0 s []"

definition lits :: "string \<Rightarrow> rx list" where
  "lits s = map (\<lambda>c. One (Ch c)) (lit s)"

text \<open>\<open>INCLUDE_RE = re.compile(r"^\s*include\s+([^;]+)\s*;\s*$")\<close>\<close>

definition INCLUDE_RE :: "rx list" where
  "INCLUDE_RE =
     [Bol, Star Ws False] @ lits ''include'' @
     [Plus Ws False, Plus (Not_Ch SEMI) True, Star Ws False, One (Ch SEMI), Star Ws False, Eol]"

text \<open>The three patterns of \<open>find_http_block\<close>: \<open>^\s*http\s*\{\<close>, \<open>^\s*http\s*$\<close> and \<open>^\s*\{\<close>.\<close>

definition HTTP_OPEN_RE :: "rx list" where
  "HTTP_OPEN_RE = [Bol, Star Ws False] @ lits ''http'' @ [Star Ws False, One (Ch LBRACE)]"

definition HTTP_ALONE_RE :: "rx list" where
  "HTTP_ALONE_RE = [Bol, Star Ws False] @ lits ''http'' @ [Star Ws False, Eol]"

definition BRACE_RE :: "rx list" where
  "BRACE_RE = [Bol, Star Ws False, One (Ch LBRACE)]"

section \<open>The include parser\<close>

text \<open>
  \<open>_unquote\<close>: strip, then drop one pair of surrounding quotes of the same kind and strip
  again. \<open>v[1:-1]\<close> is empty for a \<open>v\<close> of one character.
\<close>

definition unquote :: "pystr \<Rightarrow> pystr" where
  "unquote raw =
     (let v = strip_ws raw in
      if (startswith v [DQUOTE] \<and> endswith v [DQUOTE])
         \<or> (startswith v [SQUOTE] \<and> endswith v [SQUOTE])
      then strip_ws (take (length v - 2) (drop 1 v))
      else v)"

text \<open>\<open>_parse_include_path\<close>\<close>

definition parse_include_path :: "pystr \<Rightarrow> py_error + pystr option" where
  "parse_include_path line =
     (case strip_comments line of
        Inl e \<Rightarrow> Inl e
      | Inr stripped \<Rightarrow>
          (let cleaned = rstrip_char LF stripped in
           case re_match INCLUDE_RE cleaned of
             None \<Rightarrow> Inr None
           | Some g \<Rightarrow> Inr (Some (unquote g))))"

section \<open>The block locator\<close>

record HttpBlock =
  start_line_index :: nat
  end_line_index :: nat

text \<open>
  The body of the first loop of \<open>find_http_block\<close> at one index: the value it gives
  \<open>http_open_index\<close> when it breaks there, \<open>None\<close> when it goes on. \<open>raw\<close> is the line the
  iteration yields; the line after it is read by subscript, behind the length test.
\<close>

definition http_open_at :: "pystr list \<Rightarrow> nat \<Rightarrow> pystr \<Rightarrow> py_error + nat option" where
  "http_open_at lines index raw =
     (case strip_comments raw of
        Inl e \<Rightarrow> Inl e
      | Inr line \<Rightarrow>
          if re_match HTTP_OPEN_RE line \<noteq> None then Inr (Some index)
          else if re_match HTTP_ALONE_RE line \<noteq> None then
            (if index + 1 < length lines then
               (case py_getitem lines (index + 1) of
                  Inl e \<Rightarrow> Inl e
                | Inr following \<Rightarrow>
                    (case strip_comments following of
                       Inl e \<Rightarrow> Inl e
                     | Inr opened \<Rightarrow>
                         if re_match BRACE_RE opened \<noteq> None then Inr (Some (index + 1))
                         else Inr None))
             else Inr None)
          else Inr None)"

text \<open>The first loop: \<open>for index, raw in enumerate(lines)\<close>, from \<open>index\<close> on.\<close>

function http_open_scan :: "pystr list \<Rightarrow> nat \<Rightarrow> py_error + nat option" where
  "http_open_scan lines index =
     (if index < length lines then
        (case http_open_at lines index (lines ! index) of
           Inl e \<Rightarrow> Inl e
         | Inr (Some found) \<Rightarrow> Inr (Some found)
         | Inr None \<Rightarrow> http_open_scan lines (Suc index))
      else Inr None)"
  by pat_completeness auto
termination
  by (relation "measure (\<lambda>(lines, index). length lines - index)") auto

text \<open>
  The second loop: \<open>for index in range(http_open_index, len(lines))\<close>, from \<open>index\<close> on
  with the depth reached so far.
\<close>

function depth_scan :: "pystr list \<Rightarrow> nat \<Rightarrow> nat \<Rightarrow> int \<Rightarrow> py_error + HttpBlock option" where
  "depth_scan lines http_open_index index depth =
     (if index < length lines then
        (case py_getitem lines index of
           Inl e \<Rightarrow> Inl e
         | Inr raw \<Rightarrow>
             (case strip_comments raw of
                Inl e \<Rightarrow> Inl e
              | Inr line \<Rightarrow>
                  (let depth' = depth + int (count_char line LBRACE) - int (count_char line RBRACE)
                   in if depth' = 0 \<and> index > http_open_index
                      then Inr (Some \<lparr>start_line_index = http_open_index, end_line_index = index\<rparr>)
                      else depth_scan lines http_open_index (Suc index) depth')))
      else Inr None)"
  by pat_completeness auto
termination
  by (relation "measure (\<lambda>(lines, http_open_index, index, depth). length lines - index)") auto

text \<open>\<open>find_http_block\<close>\<close>

definition find_http_block :: "pystr list \<Rightarrow> py_error + HttpBlock option" where
  "find_http_block lines =
     (case http_open_scan lines 0 of
        Inl e \<Rightarrow> Inl e
      | Inr None \<Rightarrow> Inr None
      | Inr (Some http_open_index) \<Rightarrow> depth_scan lines http_open_index http_open_index 0)"

section \<open>The inclusion check\<close>

text \<open>
  A path of the file system is missing, exists but cannot be read as a file, or is a file
  whose decoded text is given (\<open>errors="replace"\<close>: decoding never fails).
\<close>

datatype fs_entry = Missing | Unreadable | Readable pystr

type_synonym filesystem = "pystr \<Rightarrow> fs_entry"

definition path_exists :: "filesystem \<Rightarrow> pystr \<Rightarrow> bool" where
  "path_exists fs p = (fs p \<noteq> Missing)"

definition read_text :: "filesystem \<Rightarrow> pystr \<Rightarrow> py_error + pystr" where
  "read_text fs p = (case fs p of Readable content \<Rightarrow> Inr content | _ \<Rightarrow> Inl OSError)"

text \<open>The two targets, \<open>include_abs\<close> and \<open>include_rel\<close>, and the set of both.\<close>

definition include_abs :: "pystr \<Rightarrow> pystr" where
  "include_abs snippets_dir = rstrip_char SLASH snippets_dir @ lit ''/*.conf''"

definition include_rel :: "pystr \<Rightarrow> pystr" where
  "include_rel snippets_dir =
     removeprefix (lit ''/etc/nginx/'') (rstrip_char SLASH snippets_dir) @ lit ''/*.conf''"

definition include_targets :: "pystr \<Rightarrow> pystr list" where
  "include_targets snippets_dir = [include_abs snippets_dir, include_rel snippets_dir]"

text \<open>\<open>include_path and include_path in targets\<close>: \<open>None\<close> and the empty string are false.\<close>

definition include_hit :: "pystr list \<Rightarrow> pystr option \<Rightarrow> bool" where
  "include_hit targets include_path =
     (case include_path of None \<Rightarrow> False | Some p \<Rightarrow> p \<noteq> [] \<and> p \<in> set targets)"

text \<open>\<open>xs[a:b]\<close> for indices that are not negative.\<close>

definition py_slice :: "'a list \<Rightarrow> nat \<Rightarrow> nat \<Rightarrow> 'a list" where
  "py_slice xs a b = drop a (take b xs)"

text \<open>The loop over the lines of the block: it returns at the first hit.\<close>

fun scan_block :: "pystr list \<Rightarrow> pystr list \<Rightarrow> py_error + bool" where
  "scan_block targets [] = Inr False"
| "scan_block targets (raw # rest) =
     (case parse_include_path raw of
        Inl e \<Rightarrow> Inl e
      | Inr include_path \<Rightarrow>
          if include_hit targets include_path then Inr True else scan_block targets rest)"

text \<open>\<open>nginx_conf_includes_snippets\<close>\<close>

definition nginx_conf_includes_snippets :: "filesystem \<Rightarrow> pystr \<Rightarrow> pystr \<Rightarrow> py_error + bool" where
  "nginx_conf_includes_snippets fs conf_path snippets_dir =
     (case read_text fs conf_path of
        Inl e \<Rightarrow> Inl e
      | Inr content \<Rightarrow>
          (let lines = splitlines_keepends content in
           case find_http_block lines of
             Inl e \<Rightarrow> Inl e
           | Inr None \<Rightarrow> Inr False
           | Inr (Some block) \<Rightarrow>
               scan_block (include_targets snippets_dir)
                 (py_slice lines (start_line_index block) (end_line_index block + 1))))"

section \<open>The command\<close>

record cli_args =
  conf :: pystr
  snippets_dir :: pystr
  verbose :: bool

text \<open>
  What a run leaves behind: the exit status and the lines printed on standard output and
  on standard error. The error line shows the path as \<open>pathlib\<close> renders it, which is a
  parameter here.
\<close>

record cli_outcome =
  exit_status :: int
  stdout_lines :: "pystr list"
  stderr_lines :: "pystr list"

text \<open>\<open>_cmd_includes_snippets\<close>\<close>

definition cmd_includes_snippets ::
  "(pystr \<Rightarrow> pystr) \<Rightarrow> filesystem \<Rightarrow> cli_args \<Rightarrow> py_error + cli_outcome" where
  "cmd_includes_snippets path_str fs args =
     (if \<not> path_exists fs (conf args) then
        Inr \<lparr>exit_status = 2, stdout_lines = [],
             stderr_lines = [lit ''ERROR: nginx config not found: '' @ path_str (conf args)]\<rparr>
      else
        (case nginx_conf_includes_snippets fs (conf args) (snippets_dir args) of
           Inl e \<Rightarrow> Inl e
         | Inr ok \<Rightarrow>
             Inr \<lparr>exit_status = (if ok then 0 else 1),
                  stdout_lines = (if verbose args then [if ok then lit ''yes'' else lit ''no''] else []),
                  stderr_lines = []\<rparr>))"

section \<open>The vocabulary of the specification\<close>

text \<open>
  The words the specification uses about the locator, as functions of the lines: the
  comment-stripped text of a line, the two forms of the opening, the net number of braces
  a line opens, and the depth accumulated from a start line through a given line.
\<close>

definition uncomment :: "pystr \<Rightarrow> pystr" where
  "uncomment raw = takeWhile (\<lambda>x. x \<noteq> HASH) raw"

definition one_line_form :: "pystr \<Rightarrow> bool" where
  "one_line_form raw = (re_match HTTP_OPEN_RE (uncomment raw) \<noteq> None)"

definition two_line_form :: "pystr list \<Rightarrow> nat \<Rightarrow> bool" where
  "two_line_form lines i =
     (re_match HTTP_ALONE_RE (uncomment (lines ! i)) \<noteq> None \<and> i + 1 < length lines
      \<and> re_match BRACE_RE (uncomment (lines ! (i + 1))) \<noteq> None)"

text \<open>The first line, top to bottom, at which one of the two forms matches.\<close>

definition first_form_line :: "pystr list \<Rightarrow> nat option" where
  "first_form_line lines =
     find (\<lambda>i. one_line_form (lines ! i) \<or> two_line_form lines i) [0..<length lines]"

definition brace_delta :: "pystr \<Rightarrow> int" where
  "brace_delta raw =
     int (count_char (uncomment raw) LBRACE) - int (count_char (uncomment raw) RBRACE)"

definition depth_through :: "pystr list \<Rightarrow> nat \<Rightarrow> nat \<Rightarrow> int" where
  "depth_through lines s k = sum_list (map brace_delta (py_slice lines s (k + 1)))"

text \<open>
  The first line strictly after line \<open>s\<close> where the depth accumulated from \<open>s\<close> is 0, and
  the block from a given opening line to that line.
\<close>

definition first_close :: "pystr list \<Rightarrow> nat \<Rightarrow> nat option" where
  "first_close lines s = find (\<lambda>k. depth_through lines s k = 0) [Suc s..<length lines]"

definition block_from :: "pystr list \<Rightarrow> nat option \<Rightarrow> HttpBlock option" where
  "block_from lines opening =
     (case opening of
        None \<Rightarrow> None
      | Some s \<Rightarrow>
          (case first_close lines s of
             None \<Rightarrow> None
           | Some e \<Rightarrow> Some \<lparr>start_line_index = s, end_line_index = e\<rparr>))"

text \<open>
  The block as the specification words it: the opening line is the first line at which a
  form matches.
\<close>

definition claimed_http_block :: "pystr list \<Rightarrow> HttpBlock option" where
  "claimed_http_block lines = block_from lines (first_form_line lines)"

text \<open>
  The block with the opening line of the code: the matching line itself in the one-line
  form, the line after it in the two-line form.
\<close>

definition opening_line :: "pystr list \<Rightarrow> nat option" where
  "opening_line lines =
     (case first_form_line lines of
        None \<Rightarrow> None
      | Some i \<Rightarrow> Some (if one_line_form (lines ! i) then i else i + 1))"

definition located_http_block :: "pystr list \<Rightarrow> HttpBlock option" where
  "located_http_block lines = block_from lines (opening_line lines)"

text \<open>
  The invariant of a block as the specification words it: more opening than closing
  braces at every line from the start line to the line before the end line.
\<close>

definition claimed_block_invariant :: "pystr list \<Rightarrow> HttpBlock \<Rightarrow> bool" where
  "claimed_block_invariant lines b =
     (start_line_index b \<le> end_line_index b
      \<and> depth_through lines (start_line_index b) (end_line_index b) = 0
      \<and> list_all (\<lambda>k. 0 < depth_through lines (start_line_index b) k)
           [start_line_index b..<end_line_index b])"

text \<open>The same with a depth other than 0 strictly between the start and the end line.\<close>

definition located_block_invariant :: "pystr list \<Rightarrow> HttpBlock \<Rightarrow> bool" where
  "located_block_invariant lines b =
     (start_line_index b \<le> end_line_index b
      \<and> depth_through lines (start_line_index b) (end_line_index b) = 0
      \<and> list_all (\<lambda>k. depth_through lines (start_line_index b) k \<noteq> 0)
           [Suc (start_line_index b)..<end_line_index b])"

text \<open>
  The second target as the specification words it: the prefix is removed from the
  snippets directory first, and the trailing slashes after that.
\<close>

definition claimed_include_rel :: "pystr \<Rightarrow> pystr" where
  "claimed_include_rel dir =
     rstrip_char SLASH (removeprefix (lit ''/etc/nginx/'') dir) @ lit ''/*.conf''"

section \<open>Properties of the comment stripper\<close>

lemma takeWhile_absent: "c \<notin> set s \<Longrightarrow> takeWhile (\<lambda>x. x \<noteq> c) s = s"
  by (induction s) auto

lemma takeWhile_first: "c \<notin> set a \<Longrightarrow> takeWhile (\<lambda>x. x \<noteq> c) (a @ c # b) = a"
  by (induction a) auto

lemma dropWhile_first: "c \<notin> set a \<Longrightarrow> dropWhile (\<lambda>x. x \<noteq> c) (a @ c # b) = c # b"
  by (induction a) auto

lemma strip_comments_takeWhile:
  "strip_comments line = Inr (takeWhile (\<lambda>x. x \<noteq> HASH) line)"
  by (simp add: strip_comments_def py_getitem_def split_once_def takeWhile_absent)

text \<open>
  C7. For every line, the comment stripper returns the part of the line before its first
  \<open>#\<close>, unchanged, and the whole line when it holds no \<open>#\<close>. It knows no quoting: the
  first \<open>#\<close> starts the comment wherever it stands, also between quotes.
\<close>

theorem strip_comments_before_first_hash:
  "(HASH \<notin> set line \<longrightarrow> strip_comments line = Inr line) \<and>
   (\<forall>before after. line = before @ HASH # after \<and> HASH \<notin> set before
      \<longrightarrow> strip_comments line = Inr before)"
  by (simp add: strip_comments_takeWhile takeWhile_absent takeWhile_first)

theorem strip_comments_before_first_hash_witness:
  "strip_comments (lit ''  include x; '') = Inr (lit ''  include x; '') \<and>
   strip_comments (lit ''include \"a#b\"; # tail'') = Inr (lit ''include \"a'')"
proof -
  have a: "HASH \<notin> set (lit ''  include x; '')"
    by (simp add: lit_def HASH_def)
  have b: "lit ''include \"a#b\"; # tail'' = lit ''include \"a'' @ HASH # lit ''b\"; # tail''"
    by (simp add: lit_def HASH_def)
  have c: "HASH \<notin> set (lit ''include \"a'')"
    by (simp add: lit_def HASH_def)
  from strip_comments_before_first_hash [of "lit ''  include x; ''"] a
  have "strip_comments (lit ''  include x; '') = Inr (lit ''  include x; '')"
    by blast
  moreover from strip_comments_before_first_hash [of "lit ''include \"a#b\"; # tail''"] b c
  have "strip_comments (lit ''include \"a#b\"; # tail'') = Inr (lit ''include \"a'')"
    by blast
  ultimately show ?thesis by simp
qed

section \<open>Evaluating the model on a given text\<close>

lemmas chars = HASH_def LBRACE_def RBRACE_def SEMI_def DQUOTE_def SQUOTE_def SLASH_def LF_def
  CR_def lit_def isspace_def islinebreak_def

lemmas patterns = re_match_def INCLUDE_RE_def HTTP_OPEN_RE_def HTTP_ALONE_RE_def BRACE_RE_def
  lits_def

lemmas locator = located_http_block_def block_from_def opening_line_def first_form_line_def
  first_close_def depth_through_def brace_delta_def one_line_form_def two_line_form_def
  uncomment_def count_char_def py_slice_def upt_conv_Cons

section \<open>The block locator computes the located block\<close>

lemma strip_comments_uncomment: "strip_comments line = Inr (uncomment line)"
  by (simp add: strip_comments_takeWhile uncomment_def)

lemma http_open_at_eq:
  "http_open_at lines i (lines ! i) =
     Inr (if one_line_form (lines ! i) then Some i
          else if two_line_form lines i then Some (i + 1) else None)"
  by (simp add: http_open_at_def strip_comments_uncomment one_line_form_def two_line_form_def
      py_getitem_def)

declare http_open_scan.simps [simp del]
declare depth_scan.simps [simp del]

lemma http_open_scan_eq:
  "http_open_scan lines index =
     Inr (case find (\<lambda>i. one_line_form (lines ! i) \<or> two_line_form lines i)
                 [index..<length lines] of
            None \<Rightarrow> None
          | Some i \<Rightarrow> Some (if one_line_form (lines ! i) then i else i + 1))"
proof (induction lines index rule: http_open_scan.induct)
  case (1 lines index)
  show ?case
  proof (cases "index < length lines")
    case False
    then show ?thesis
      by (subst http_open_scan.simps) simp
  next
    case True
    then have upt: "[index..<length lines] = index # [Suc index..<length lines]"
      by (simp add: upt_conv_Cons)
    show ?thesis
    proof (cases "one_line_form (lines ! index) \<or> two_line_form lines index")
      case found: True
      then show ?thesis
        using True by (subst http_open_scan.simps) (auto simp: http_open_at_eq upt)
    next
      case notfound: False
      then have at: "http_open_at lines index (lines ! index) = Inr None"
        by (simp add: http_open_at_eq)
      from "1.IH" [OF True at]
      show ?thesis
        using True notfound at by (subst http_open_scan.simps) (simp add: upt)
    qed
  qed
qed

lemma depth_through_step:
  assumes "s \<le> k" "k < length lines"
  shows "depth_through lines s k =
         sum_list (map brace_delta (py_slice lines s k)) + brace_delta (lines ! k)"
proof -
  have "take (k + 1) lines = take k lines @ [lines ! k]"
    using assms by (simp add: take_Suc_conv_app_nth)
  then have "py_slice lines s (k + 1) = py_slice lines s k @ [lines ! k]"
    using assms by (simp add: py_slice_def)
  then show ?thesis by (simp add: depth_through_def)
qed

lemma depth_scan_eq:
  assumes "s \<le> index" "depth = sum_list (map brace_delta (py_slice lines s index))"
  shows "depth_scan lines s index depth =
     Inr (case find (\<lambda>k. s < k \<and> depth_through lines s k = 0) [index..<length lines] of
            None \<Rightarrow> None
          | Some e \<Rightarrow> Some \<lparr>start_line_index = s, end_line_index = e\<rparr>)"
  using assms
proof (induction lines s index depth rule: depth_scan.induct)
  case (1 lines s index depth)
  show ?case
  proof (cases "index < length lines")
    case False
    then show ?thesis
      by (subst depth_scan.simps) simp
  next
    case True
    then have upt: "[index..<length lines] = index # [Suc index..<length lines]"
      by (simp add: upt_conv_Cons)
    define depth' where
      "depth' = depth + int (count_char (uncomment (lines ! index)) LBRACE)
                 - int (count_char (uncomment (lines ! index)) RBRACE)"
    have d': "depth' = depth_through lines s index"
      using depth_through_step [OF "1.prems"(1) True] "1.prems"(2)
      by (simp add: depth'_def brace_delta_def [of "lines ! index"])
    show ?thesis
    proof (cases "depth' = 0 \<and> s < index")
      case stop: True
      then show ?thesis
        using True d'
        by (subst depth_scan.simps)
           (simp add: py_getitem_def strip_comments_uncomment upt depth'_def)
    next
      case go: False
      have next_depth: "depth' = sum_list (map brace_delta (py_slice lines s (Suc index)))"
        using d' by (simp add: depth_through_def)
      have le: "s \<le> Suc index" using "1.prems"(1) by simp
      have gi: "py_getitem lines index = Inr (lines ! index)"
        using True by (simp add: py_getitem_def)
      have sc: "strip_comments (lines ! index) = Inr (uncomment (lines ! index))"
        by (rule strip_comments_uncomment)
      have "depth_scan lines s (Suc index) depth' =
        Inr (case find (\<lambda>k. s < k \<and> depth_through lines s k = 0) [Suc index..<length lines] of
            None \<Rightarrow> None
          | Some e \<Rightarrow> Some \<lparr>start_line_index = s, end_line_index = e\<rparr>)"
        using "1.IH" [OF True gi sc refl] go le next_depth
        by (simp add: depth'_def)
      then show ?thesis
        using True go d'
        by (subst depth_scan.simps)
           (auto simp: py_getitem_def strip_comments_uncomment upt depth'_def Let_def)
    qed
  qed
qed

lemma find_after_start: "find (\<lambda>k. s < k \<and> P k) [s..<n] = find P [Suc s..<n]"
proof (cases "s < n")
  case True
  have "find (\<lambda>k. s < k \<and> P k) [Suc s..<n] = find P [Suc s..<n]"
    by (rule find_cong) auto
  with True show ?thesis by (simp add: upt_conv_Cons)
next
  case False
  then show ?thesis by simp
qed

lemma depth_scan_from_start:
  "depth_scan lines s s 0 = Inr (block_from lines (Some s))"
proof -
  have "(0::int) = sum_list (map brace_delta (py_slice lines s s))"
    by (simp add: py_slice_def)
  from depth_scan_eq [OF le_refl this]
  show ?thesis by (simp add: find_after_start block_from_def first_close_def)
qed

lemma find_http_block_eq: "find_http_block lines = Inr (located_http_block lines)"
proof (cases "first_form_line lines")
  case None
  then show ?thesis
    by (simp add: find_http_block_def http_open_scan_eq located_http_block_def opening_line_def
        block_from_def first_form_line_def)
next
  case (Some i)
  then show ?thesis
    by (simp add: find_http_block_def http_open_scan_eq located_http_block_def opening_line_def
        first_form_line_def depth_scan_from_start)
qed

lemma first_close_SomeD:
  assumes "first_close lines s = Some e"
  shows "s < e" "e < length lines" "depth_through lines s e = 0"
    "\<forall>k. s < k \<and> k < e \<longrightarrow> depth_through lines s k \<noteq> 0"
proof -
  from assms obtain i where i: "i < length [Suc s..<length lines]"
      "depth_through lines s ([Suc s..<length lines] ! i) = 0"
      "e = [Suc s..<length lines] ! i"
      "\<forall>j<i. depth_through lines s ([Suc s..<length lines] ! j) \<noteq> 0"
    unfolding first_close_def find_Some_iff by blast
  from i(1) have lt: "Suc s + i < length lines" by simp
  with i(3) have e: "e = Suc s + i" by simp
  show "s < e" using e by simp
  show "e < length lines" using e lt by simp
  show "depth_through lines s e = 0" using i(2) i(3) by simp
  show "\<forall>k. s < k \<and> k < e \<longrightarrow> depth_through lines s k \<noteq> 0"
  proof (intro allI impI)
    fix k assume k: "s < k \<and> k < e"
    define j where "j = k - Suc s"
    have j: "j < i" "k = Suc s + j" using k e unfolding j_def by arith+
    from j(1) lt have "[Suc s..<length lines] ! j = Suc s + j" by simp
    with i(4) j show "depth_through lines s k \<noteq> 0" by auto
  qed
qed

lemma block_from_SomeD:
  assumes "block_from lines opening = Some b"
  shows "opening = Some (start_line_index b)"
    "first_close lines (start_line_index b) = Some (end_line_index b)"
  using assms by (auto simp: block_from_def split: option.splits)

lemma find_http_block_SomeD:
  assumes "find_http_block lines = Inr (Some b)"
  shows "start_line_index b < end_line_index b" "end_line_index b < length lines"
    "depth_through lines (start_line_index b) (end_line_index b) = 0"
    "\<forall>k. start_line_index b < k \<and> k < end_line_index b
       \<longrightarrow> depth_through lines (start_line_index b) k \<noteq> 0"
proof -
  from assms have "block_from lines (opening_line lines) = Some b"
    by (simp add: find_http_block_eq located_http_block_def)
  then have fc: "first_close lines (start_line_index b) = Some (end_line_index b)"
    by (rule block_from_SomeD)
  from first_close_SomeD [OF fc]
  show "start_line_index b < end_line_index b" "end_line_index b < length lines"
    "depth_through lines (start_line_index b) (end_line_index b) = 0"
    "\<forall>k. start_line_index b < k \<and> k < end_line_index b
       \<longrightarrow> depth_through lines (start_line_index b) k \<noteq> 0"
    by simp_all
qed

text \<open>
  C3, as amended. Every block the locator returns has its start line index at or before
  its end line index; the depth accumulated over the comment-stripped lines from the
  start line is exactly 0 at the end line, and it is not 0 at any line strictly between
  the start line and the end line.
\<close>

theorem find_http_block_invariant:
  assumes "find_http_block lines = Inr (Some b)"
  shows "located_block_invariant lines b"
  using find_http_block_SomeD [OF assms]
  by (simp add: located_block_invariant_def list_all_iff)

theorem find_http_block_invariant_witness:
  "find_http_block [lit ''http {\<newline>'', lit ''  server { }\<newline>'', lit ''}\<newline>'']
     = Inr (Some \<lparr>start_line_index = 0, end_line_index = 2\<rparr>)
   \<and> located_block_invariant [lit ''http {\<newline>'', lit ''  server { }\<newline>'', lit ''}\<newline>'']
       \<lparr>start_line_index = 0, end_line_index = 2\<rparr>"
proof -
  have h: "find_http_block [lit ''http {\<newline>'', lit ''  server { }\<newline>'', lit ''}\<newline>'']
     = Inr (Some \<lparr>start_line_index = 0, end_line_index = 2\<rparr>)"
    by (simp add: find_http_block_eq locator patterns chars)
  from find_http_block_invariant [OF h] h show ?thesis by simp
qed

text \<open>
  C3 as it is stated asks for more opening than closing braces at every line from the
  start line to the line before the end line. The scan stops only where the depth is
  exactly 0, past the opening line: on \<open>http {\<close>, \<open>}}\<close>, \<open>{\<close> it returns the block of
  lines 0 to 2 although the depth is -1 at line 1, and on \<open>http {}\<close>, \<open>}\<close>, \<open>{\<close> it
  returns the same block although the depth is 0 at the start line already.
\<close>

theorem find_http_block_invariant_counterexample:
  "find_http_block [lit ''http {\<newline>'', lit ''}}\<newline>'', lit ''{\<newline>'']
     = Inr (Some \<lparr>start_line_index = 0, end_line_index = 2\<rparr>)
   \<and> depth_through [lit ''http {\<newline>'', lit ''}}\<newline>'', lit ''{\<newline>''] 0 1 = - 1
   \<and> \<not> claimed_block_invariant [lit ''http {\<newline>'', lit ''}}\<newline>'', lit ''{\<newline>'']
       \<lparr>start_line_index = 0, end_line_index = 2\<rparr>
   \<and> find_http_block [lit ''http {}\<newline>'', lit ''}\<newline>'', lit ''{\<newline>'']
     = Inr (Some \<lparr>start_line_index = 0, end_line_index = 2\<rparr>)
   \<and> depth_through [lit ''http {}\<newline>'', lit ''}\<newline>'', lit ''{\<newline>''] 0 0 = 0
   \<and> \<not> claimed_block_invariant [lit ''http {}\<newline>'', lit ''}\<newline>'', lit ''{\<newline>'']
       \<lparr>start_line_index = 0, end_line_index = 2\<rparr>"
  by (simp add: find_http_block_eq claimed_block_invariant_def locator patterns chars)

section \<open>What a match of the patterns says about the text\<close>

lemma re_run_Star_SomeD:
  "re_run (Star c cap # r) pos s g = Some res \<Longrightarrow>
   \<exists>u v. s = u @ v \<and> (\<forall>x\<in>set u. in_cset c x)
     \<and> re_run r (pos + length u) v (if cap then g @ u else g) = Some res"
proof (induction s arbitrary: pos g)
  case Nil
  then show ?case by simp
next
  case (Cons x xs)
  show ?case
  proof (cases "in_cset c x \<and> re_run (Star c cap # r) (Suc pos) xs (if cap then g @ [x] else g) \<noteq> None")
    case True
    then have "re_run (Star c cap # r) (Suc pos) xs (if cap then g @ [x] else g) = Some res"
      using Cons.prems by auto
    from Cons.IH [OF this] obtain u v where uv: "xs = u @ v" "\<forall>x\<in>set u. in_cset c x"
      "re_run r (Suc pos + length u) v (if cap then (if cap then g @ [x] else g) @ u else (if cap then g @ [x] else g)) = Some res"
      by blast
    have "x # xs = (x # u) @ v" using uv(1) by simp
    moreover have "\<forall>y\<in>set (x # u). in_cset c y" using uv(2) True by simp
    moreover have "re_run r (pos + length (x # u)) v (if cap then g @ (x # u) else g) = Some res"
      using uv(3) by (cases cap) simp_all
    ultimately show ?thesis by blast
  next
    case False
    then have "re_run r pos (x # xs) g = Some res"
      using Cons.prems by (auto split: if_splits option.splits)
    then have "x # xs = [] @ (x # xs) \<and> (\<forall>y\<in>set []. in_cset c y)
       \<and> re_run r (pos + length ([]::pystr)) (x # xs) (if cap then g @ [] else g) = Some res"
      by simp
    then show ?thesis by blast
  qed
qed

lemma re_run_Plus_SomeD:
  assumes "re_run (Plus c cap # r) pos s g = Some res"
  shows "\<exists>u v. s = u @ v \<and> u \<noteq> [] \<and> (\<forall>x\<in>set u. in_cset c x)
     \<and> re_run r (pos + length u) v (if cap then g @ u else g) = Some res"
proof (cases s)
  case Nil
  with assms show ?thesis by simp
next
  case (Cons x xs)
  with assms have x: "in_cset c x"
    and run: "re_run (Star c cap # r) (Suc pos) xs (if cap then g @ [x] else g) = Some res"
    by (auto split: if_splits)
  from re_run_Star_SomeD [OF run] obtain u v where uv: "xs = u @ v" "\<forall>x\<in>set u. in_cset c x"
      "re_run r (Suc pos + length u) v (if cap then (if cap then g @ [x] else g) @ u else (if cap then g @ [x] else g)) = Some res"
    by blast
  have "s = (x # u) @ v" using uv(1) Cons by simp
  moreover have "x # u \<noteq> []" by simp
  moreover have "\<forall>y\<in>set (x # u). in_cset c y" using uv(2) x by simp
  moreover have "re_run r (pos + length (x # u)) v (if cap then g @ (x # u) else g) = Some res"
    using uv(3) by (cases cap) simp_all
  ultimately show ?thesis by blast
qed

lemma re_run_One_SomeD:
  assumes "re_run (One c # r) pos s g = Some res"
  shows "\<exists>x v. s = x # v \<and> in_cset c x \<and> re_run r (Suc pos) v g = Some res"
  using assms by (cases s) (auto split: if_splits)

lemma re_run_lits_SomeD:
  "re_run (map (\<lambda>c. One (Ch c)) w @ r) pos s g = Some res \<Longrightarrow>
   \<exists>v. s = w @ v \<and> re_run r (pos + length w) v g = Some res"
proof (induction w arbitrary: pos s)
  case Nil
  then show ?case by simp
next
  case (Cons a w)
  then have "re_run (One (Ch a) # (map (\<lambda>c. One (Ch c)) w @ r)) pos s g = Some res" by simp
  from re_run_One_SomeD [OF this] obtain x v where xv: "s = x # v" "in_cset (Ch a) x"
    "re_run (map (\<lambda>c. One (Ch c)) w @ r) (Suc pos) v g = Some res" by blast
  from Cons.IH [OF xv(3)] obtain v' where "v = w @ v'" "re_run r (Suc pos + length w) v' g = Some res"
    by blast
  with xv show ?case by simp
qed

lemma re_run_Eol_SomeD:
  assumes "re_run [Eol] pos s g = Some res"
  shows "(s = [] \<or> s = [LF]) \<and> res = g"
  using assms by (auto split: if_splits)

lemma isspace_LF: "isspace LF"
  by (simp add: isspace_def LF_def)

lemma not_isspace_SEMI: "\<not> isspace SEMI"
  by (simp add: isspace_def SEMI_def)

lemma include_re_matchD:
  assumes "re_match INCLUDE_RE s = Some g"
  shows "\<exists>ws1 ws2 ws3 ws4. s = ws1 @ lit ''include'' @ ws2 @ g @ ws3 @ SEMI # ws4
     \<and> (\<forall>x\<in>set ws1. isspace x) \<and> ws2 \<noteq> [] \<and> (\<forall>x\<in>set ws2. isspace x)
     \<and> g \<noteq> [] \<and> SEMI \<notin> set g
     \<and> (\<forall>x\<in>set ws3. isspace x) \<and> (\<forall>x\<in>set ws4. isspace x)"
proof -
  let ?tail = "[Plus Ws False, Plus (Not_Ch SEMI) True, Star Ws False, One (Ch SEMI),
     Star Ws False, Eol]"
  from assms have "re_run (Star Ws False # (map (\<lambda>c. One (Ch c)) (lit ''include'') @ ?tail)) 0 s [] = Some g"
    by (simp add: re_match_def INCLUDE_RE_def lits_def)
  from re_run_Star_SomeD [OF this] obtain ws1 s1 where 1: "s = ws1 @ s1" "\<forall>x\<in>set ws1. isspace x"
    and r1: "re_run (map (\<lambda>c. One (Ch c)) (lit ''include'') @ ?tail) (0 + length ws1) s1 [] = Some g"
    by auto
  from re_run_lits_SomeD [OF r1] obtain s2 where 2: "s1 = lit ''include'' @ s2"
    and r2: "re_run ?tail (0 + length ws1 + length (lit ''include'')) s2 [] = Some g"
    by blast
  from re_run_Plus_SomeD [OF r2] obtain ws2 s3 where 3: "s2 = ws2 @ s3" "ws2 \<noteq> []"
      "\<forall>x\<in>set ws2. isspace x"
    and r3: "re_run [Plus (Not_Ch SEMI) True, Star Ws False, One (Ch SEMI), Star Ws False, Eol]
       (0 + length ws1 + length (lit ''include'') + length ws2) s3 [] = Some g"
    by auto
  from re_run_Plus_SomeD [OF r3] obtain arg s4 where 4: "s3 = arg @ s4" "arg \<noteq> []"
      "\<forall>x\<in>set arg. x \<noteq> SEMI"
    and r4: "re_run [Star Ws False, One (Ch SEMI), Star Ws False, Eol]
       (0 + length ws1 + length (lit ''include'') + length ws2 + length arg) s4 arg = Some g"
    by auto
  from re_run_Star_SomeD [OF r4] obtain ws3 s5 where 5: "s4 = ws3 @ s5" "\<forall>x\<in>set ws3. isspace x"
    and r5: "re_run [One (Ch SEMI), Star Ws False, Eol]
       (0 + length ws1 + length (lit ''include'') + length ws2 + length arg + length ws3) s5 arg = Some g"
    by auto
  from re_run_One_SomeD [OF r5] obtain x s6 where 6: "s5 = x # s6" "x = SEMI"
    and r6: "re_run [Star Ws False, Eol]
       (Suc (0 + length ws1 + length (lit ''include'') + length ws2 + length arg + length ws3)) s6 arg = Some g"
    by auto
  from re_run_Star_SomeD [OF r6] obtain ws4 s7 where 7: "s6 = ws4 @ s7" "\<forall>x\<in>set ws4. isspace x"
    and r7: "re_run [Eol]
       (Suc (0 + length ws1 + length (lit ''include'') + length ws2 + length arg + length ws3) + length ws4) s7 arg = Some g"
    by auto
  from re_run_Eol_SomeD [OF r7] have 8: "s7 = [] \<or> s7 = [LF]" and g: "g = arg" by auto
  from 8 have sp7: "\<forall>x\<in>set s7. isspace x" by (auto simp: isspace_LF)
  have "s = ws1 @ lit ''include'' @ ws2 @ g @ ws3 @ SEMI # (ws4 @ s7)"
    using 1 2 3 4 5 6 7 g by simp
  moreover have "\<forall>x\<in>set (ws4 @ s7). isspace x" using 7 sp7 by auto
  moreover have "SEMI \<notin> set g" using 4 g by auto
  ultimately show ?thesis using 1 3 4 5 g by blast
qed

lemma include_re_match_sublist:
  assumes "re_match INCLUDE_RE s = Some g"
  shows "sublist (lit ''include'') s"
proof -
  from include_re_matchD [OF assms] obtain ws1 rest where "s = ws1 @ lit ''include'' @ rest"
    by blast
  then show ?thesis by (auto simp: sublist_def)
qed

lemma include_re_match_after_semi:
  assumes "re_match INCLUDE_RE s = Some g" and "s = a @ SEMI # b"
  shows "\<forall>x\<in>set b. isspace x"
proof -
  from include_re_matchD [OF assms(1)] obtain ws1 ws2 ws3 ws4 where
    d: "s = ws1 @ lit ''include'' @ ws2 @ g @ ws3 @ SEMI # ws4"
     "\<forall>x\<in>set ws1. isspace x" "\<forall>x\<in>set ws2. isspace x" "SEMI \<notin> set g"
     "\<forall>x\<in>set ws3. isspace x" "\<forall>x\<in>set ws4. isspace x"
    by blast
  let ?p = "ws1 @ lit ''include'' @ ws2 @ g @ ws3"
  have nop: "SEMI \<notin> set ?p"
    using d(2,3,4,5) not_isspace_SEMI by (auto simp: lit_def SEMI_def)
  have s: "s = ?p @ SEMI # ws4" using d(1) by simp
  have "dropWhile (\<lambda>x. x \<noteq> SEMI) s = SEMI # ws4"
    unfolding s by (rule dropWhile_first [OF nop])
  moreover have "set b \<subseteq> set (tl (dropWhile (\<lambda>x. x \<noteq> SEMI) (a @ SEMI # b)))"
  proof (cases "SEMI \<in> set a")
    case False
    then show ?thesis by (simp add: dropWhile_first)
  next
    case True
    then have "dropWhile (\<lambda>x. x \<noteq> SEMI) (a @ SEMI # b) = dropWhile (\<lambda>x. x \<noteq> SEMI) a @ SEMI # b"
      by (simp add: dropWhile_append1)
    moreover have "dropWhile (\<lambda>x. x \<noteq> SEMI) a \<noteq> []" using True by simp
    ultimately show ?thesis by (cases "dropWhile (\<lambda>x. x \<noteq> SEMI) a") auto
  qed
  ultimately have "set b \<subseteq> set ws4" using assms(2) by simp
  with d(6) show ?thesis by blast
qed

section \<open>The include parser reads the text before the comment\<close>

lemma rstrip_char_prefix: "\<exists>t. s = rstrip_char c s @ t"
proof -
  have "rev (takeWhile (\<lambda>x. x = c) (rev s) @ dropWhile (\<lambda>x. x = c) (rev s)) = s"
    by (simp only: takeWhile_dropWhile_id rev_rev_ident)
  then have "s = rstrip_char c s @ rev (takeWhile (\<lambda>x. x = c) (rev s))"
    by (simp only: rev_append rstrip_char_def)
  then show ?thesis ..
qed

lemma rstrip_char_keeps: "x \<in> set s \<Longrightarrow> x \<noteq> c \<Longrightarrow> x \<in> set (rstrip_char c s)"
proof -
  assume x: "x \<in> set s" "x \<noteq> c"
  have "set (rev s) = set (takeWhile (\<lambda>x. x = c) (rev s)) \<union> set (dropWhile (\<lambda>x. x = c) (rev s))"
    by (metis set_append takeWhile_dropWhile_id)
  moreover have "x \<notin> set (takeWhile (\<lambda>x. x = c) (rev s))"
    using x(2) by (auto dest: set_takeWhileD)
  ultimately show ?thesis using x(1) by (auto simp: rstrip_char_def)
qed

lemma rstrip_char_after:
  assumes "y \<noteq> c"
  shows "rstrip_char c (xs @ y # ys) = xs @ y # rstrip_char c ys"
proof (cases "\<forall>x\<in>set (rev ys). x = c")
  case True
  then have "dropWhile (\<lambda>x. x = c) (rev ys @ y # rev xs) = y # rev xs"
    using assms by (subst dropWhile_append2) auto
  moreover from True have "dropWhile (\<lambda>x. x = c) (rev ys) = []" by simp
  ultimately show ?thesis by (simp add: rstrip_char_def)
next
  case False
  then obtain x where "x \<in> set (rev ys)" "x \<noteq> c" by blast
  then have "dropWhile (\<lambda>x. x = c) (rev ys @ y # rev xs)
    = dropWhile (\<lambda>x. x = c) (rev ys) @ y # rev xs"
    by (simp add: dropWhile_append1)
  then show ?thesis by (simp add: rstrip_char_def)
qed

lemma uncomment_before_hash: "uncomment (before @ HASH # after) = uncomment before"
proof (cases "HASH \<in> set before")
  case True
  then show ?thesis by (simp add: uncomment_def takeWhile_append1)
next
  case False
  then show ?thesis by (simp add: uncomment_def takeWhile_first takeWhile_absent)
qed

lemma uncomment_prefix: "\<exists>t. s = uncomment s @ t"
proof -
  have "s = uncomment s @ dropWhile (\<lambda>x. x \<noteq> HASH) s" by (simp add: uncomment_def)
  then show ?thesis ..
qed

lemma parse_include_path_eq:
  "parse_include_path line =
     Inr (case re_match INCLUDE_RE (rstrip_char LF (uncomment line)) of
            None \<Rightarrow> None | Some g \<Rightarrow> Some (unquote g))"
  by (simp add: parse_include_path_def strip_comments_uncomment split: option.splits)

lemma parse_include_path_before_hash:
  "parse_include_path (before @ HASH # after) = parse_include_path before"
  by (simp add: parse_include_path_eq uncomment_before_hash)

lemma parse_include_path_needs_keyword:
  assumes "\<not> sublist (lit ''include'') line"
  shows "parse_include_path line = Inr None"
proof (cases "re_match INCLUDE_RE (rstrip_char LF (uncomment line))")
  case None
  then show ?thesis by (simp add: parse_include_path_eq)
next
  case (Some g)
  from include_re_match_sublist [OF Some] obtain ps ss
    where c: "rstrip_char LF (uncomment line) = ps @ lit ''include'' @ ss"
    by (auto simp: sublist_def)
  obtain t where t: "uncomment line = rstrip_char LF (uncomment line) @ t"
    using rstrip_char_prefix by blast
  obtain t' where t': "line = uncomment line @ t'"
    using uncomment_prefix by blast
  have "line = ps @ lit ''include'' @ (ss @ t @ t')"
    using c t t' by (metis append.assoc)
  then have "sublist (lit ''include'') line" unfolding sublist_def by blast
  with assms show ?thesis by simp
qed

lemma parse_include_path_trailing:
  assumes "strip_comments line = Inr (a @ SEMI # b)" and "x \<in> set b" and "\<not> isspace x"
  shows "parse_include_path line = Inr None"
proof (cases "re_match INCLUDE_RE (rstrip_char LF (uncomment line))")
  case None
  then show ?thesis by (simp add: parse_include_path_eq)
next
  case (Some g)
  from assms(1) have u: "uncomment line = a @ SEMI # b"
    by (simp add: strip_comments_uncomment)
  have "SEMI \<noteq> LF" by (simp add: SEMI_def LF_def)
  then have c: "rstrip_char LF (uncomment line) = a @ SEMI # rstrip_char LF b"
    unfolding u by (rule rstrip_char_after)
  have "x \<noteq> LF" using assms(3) isspace_LF by auto
  with assms(2) have "x \<in> set (rstrip_char LF b)" by (rule rstrip_char_keeps)
  moreover from include_re_match_after_semi [OF Some c]
  have "\<forall>y\<in>set (rstrip_char LF b). isspace y" .
  ultimately show ?thesis using assms(3) by blast
qed

text \<open>
  C9. A line whose include directive stands after a \<open>#\<close> gives no path: the text after
  the first \<open>#\<close> never reaches the parser, and when the text before the \<open>#\<close> does not
  hold the word \<open>include\<close> the parser returns \<open>None\<close> and the loop over the block goes on
  to the next line, so the line contributes no match.
\<close>

theorem commented_include_ignored:
  "parse_include_path (before @ HASH # after) = parse_include_path before
   \<and> (\<not> sublist (lit ''include'') before \<longrightarrow>
        parse_include_path (before @ HASH # after) = Inr None
        \<and> \<not> include_hit targets None
        \<and> scan_block targets ((before @ HASH # after) # rest) = scan_block targets rest)"
proof -
  have eq: "parse_include_path (before @ HASH # after) = parse_include_path before"
    by (rule parse_include_path_before_hash)
  have "parse_include_path (before @ HASH # after) = Inr None
        \<and> \<not> include_hit targets None
        \<and> scan_block targets ((before @ HASH # after) # rest) = scan_block targets rest"
    if "\<not> sublist (lit ''include'') before"
  proof -
    from that have "parse_include_path before = Inr None"
      by (rule parse_include_path_needs_keyword)
    with eq show ?thesis by (simp add: include_hit_def)
  qed
  with eq show ?thesis by blast
qed

theorem commented_include_ignored_witness:
  "parse_include_path (lit ''    # include conf.d/*.conf;\<newline>'') = Inr None
   \<and> scan_block [lit ''conf.d/*.conf''] [lit ''    # include conf.d/*.conf;\<newline>''] = Inr False
   \<and> parse_include_path (lit ''include conf.d/*.conf;\<newline>'') = Inr (Some (lit ''conf.d/*.conf''))"
proof -
  have split: "lit ''    # include conf.d/*.conf;\<newline>''
      = lit ''    '' @ HASH # lit '' include conf.d/*.conf;\<newline>''"
    by (simp add: chars)
  have free: "\<not> sublist (lit ''include'') (lit ''    '')"
    by (simp add: chars sublist_code prefix_code)
  note w = commented_include_ignored
    [of "lit ''    ''" "lit '' include conf.d/*.conf;\<newline>''" "[lit ''conf.d/*.conf'']" "[]",
      folded split]
  from w free have "parse_include_path (lit ''    # include conf.d/*.conf;\<newline>'') = Inr None"
    by blast
  moreover from w free
  have "scan_block [lit ''conf.d/*.conf''] [lit ''    # include conf.d/*.conf;\<newline>'']
      = scan_block [lit ''conf.d/*.conf''] []"
    by blast
  then have "scan_block [lit ''conf.d/*.conf''] [lit ''    # include conf.d/*.conf;\<newline>'']
      = Inr False"
    by simp
  moreover have "parse_include_path (lit ''include conf.d/*.conf;\<newline>'')
      = Inr (Some (lit ''conf.d/*.conf''))"
    by (simp add: parse_include_path_eq uncomment_def rstrip_char_def patterns chars unquote_def
        strip_ws_def lstrip_ws_def rstrip_ws_def startswith_def endswith_def)
  ultimately show ?thesis by simp
qed

text \<open>
  C10. The pattern runs to the end of the line: when the comment-stripped line holds a
  character that is not whitespace anywhere after a \<open>;\<close>, the parser returns no path. So
  a line gives at most one directive, and only when nothing but whitespace follows its
  semicolon.
\<close>

theorem parse_include_path_anchored:
  assumes "strip_comments line = Inr (a @ SEMI # b)" and "\<exists>x\<in>set b. \<not> isspace x"
  shows "parse_include_path line = Inr None"
proof -
  from assms(2) obtain x where "x \<in> set b" "\<not> isspace x" by blast
  with assms(1) show ?thesis by (rule parse_include_path_trailing)
qed

theorem parse_include_path_anchored_witness:
  "parse_include_path (lit ''include a.conf; include b.conf;\<newline>'') = Inr None
   \<and> parse_include_path (lit ''include a.conf; x # note\<newline>'') = Inr None
   \<and> parse_include_path (lit ''include a.conf;   # note\<newline>'') = Inr (Some (lit ''a.conf''))"
proof -
  have s1: "strip_comments (lit ''include a.conf; include b.conf;\<newline>'')
      = Inr (lit ''include a.conf'' @ SEMI # lit '' include b.conf;\<newline>'')"
    by (simp add: strip_comments_takeWhile chars)
  have n1: "\<exists>x\<in>set (lit '' include b.conf;\<newline>''). \<not> isspace x"
    by (simp add: chars)
  have s2: "strip_comments (lit ''include a.conf; x # note\<newline>'')
      = Inr (lit ''include a.conf'' @ SEMI # lit '' x '')"
    by (simp add: strip_comments_takeWhile chars)
  have n2: "\<exists>x\<in>set (lit '' x ''). \<not> isspace x"
    by (simp add: chars)
  have "parse_include_path (lit ''include a.conf;   # note\<newline>'') = Inr (Some (lit ''a.conf''))"
    by (simp add: parse_include_path_eq uncomment_def rstrip_char_def patterns chars unquote_def
        strip_ws_def lstrip_ws_def rstrip_ws_def startswith_def endswith_def)
  with parse_include_path_anchored [OF s1 n1] parse_include_path_anchored [OF s2 n2]
  show ?thesis by simp
qed

section \<open>The patterns, as splits of the text\<close>

text \<open>
  The matcher tries the splits of the text in the order of a backtracking engine. Which
  texts it accepts does not depend on that order: a pattern matches exactly when the text
  splits into the parts the pattern names, and the path the parser returns is the same
  for every such split.
\<close>

lemma re_run_Star_complete:
  "(\<forall>x\<in>set u. in_cset c x) \<Longrightarrow>
   re_run r (pos + length u) v (if cap then g @ u else g) \<noteq> None \<Longrightarrow>
   re_run (Star c cap # r) pos (u @ v) g \<noteq> None"
proof (induction u arbitrary: pos g)
  case Nil
  then have r: "re_run r pos v g \<noteq> None" by (cases cap) simp_all
  show ?case
  proof (cases v)
    case Nil
    with r show ?thesis by simp
  next
    case (Cons x xs)
    with r show ?thesis by (simp split: option.splits)
  qed
next
  case (Cons x u)
  from Cons.prems(1) have x: "in_cset c x" and u: "\<forall>y\<in>set u. in_cset c y" by simp_all
  have "re_run r (Suc pos + length u) v
      (if cap then (if cap then g @ [x] else g) @ u else (if cap then g @ [x] else g)) \<noteq> None"
    using Cons.prems(2) by (cases cap) simp_all
  from Cons.IH [OF u this]
  obtain y where "re_run (Star c cap # r) (Suc pos) (u @ v) (if cap then g @ [x] else g) = Some y"
    by blast
  with x have "re_run (Star c cap # r) pos ((x # u) @ v) g = Some y" by simp
  then show ?case by simp
qed

lemma re_run_Plus_complete:
  assumes "u \<noteq> []" "\<forall>x\<in>set u. in_cset c x"
    and "re_run r (pos + length u) v (if cap then g @ u else g) \<noteq> None"
  shows "re_run (Plus c cap # r) pos (u @ v) g \<noteq> None"
proof (cases u)
  case Nil
  with assms(1) show ?thesis by simp
next
  case (Cons x u')
  from assms(2) Cons have x: "in_cset c x" and u: "\<forall>y\<in>set u'. in_cset c y" by simp_all
  have "re_run r (Suc pos + length u') v
      (if cap then (if cap then g @ [x] else g) @ u' else (if cap then g @ [x] else g)) \<noteq> None"
    using assms(3) Cons by (cases cap) simp_all
  from re_run_Star_complete [OF u this] x Cons show ?thesis by simp
qed

lemma re_run_lits:
  "re_run (map (\<lambda>c. One (Ch c)) w @ r) pos (w @ v) g = re_run r (pos + length w) v g"
  by (induction w arbitrary: pos) simp_all

lemma re_run_Star_Eol: "\<forall>x\<in>set u. isspace x \<Longrightarrow> re_run [Star Ws False, Eol] pos u g \<noteq> None"
  using re_run_Star_complete [of u Ws "[Eol]" pos "[]" False g] by simp

lemma include_re_complete:
  assumes "s = ws1 @ lit ''include'' @ ws2 @ arg @ ws3 @ SEMI # ws4"
    and "\<forall>x\<in>set ws1. isspace x" "ws2 \<noteq> []" "\<forall>x\<in>set ws2. isspace x"
    and "arg \<noteq> []" "SEMI \<notin> set arg" "\<forall>x\<in>set ws3. isspace x" "\<forall>x\<in>set ws4. isspace x"
  shows "re_match INCLUDE_RE s \<noteq> None"
proof -
  let ?t6 = "[One (Ch SEMI), Star Ws False, Eol]"
  let ?t5 = "Star Ws False # ?t6"
  let ?t4 = "Plus (Not_Ch SEMI) True # ?t5"
  let ?t3 = "Plus Ws False # ?t4"
  have 7: "re_run [Star Ws False, Eol] p ws4 g \<noteq> None" for p g
    using assms(8) by (rule re_run_Star_Eol)
  have 6: "re_run ?t6 p (SEMI # ws4) g \<noteq> None" for p g
    using 7 by simp
  have 5: "re_run ?t5 p (ws3 @ SEMI # ws4) g \<noteq> None" for p g
  proof (rule re_run_Star_complete)
    show "\<forall>x\<in>set ws3. in_cset Ws x" using assms(7) by simp
    show "re_run ?t6 (p + length ws3) (SEMI # ws4) (if False then g @ ws3 else g) \<noteq> None"
      using 6 by simp
  qed
  have 4: "re_run ?t4 p (arg @ ws3 @ SEMI # ws4) g \<noteq> None" for p g
  proof (rule re_run_Plus_complete)
    show "arg \<noteq> []" by (rule assms(5))
    show "\<forall>x\<in>set arg. in_cset (Not_Ch SEMI) x" using assms(6) by auto
    show "re_run ?t5 (p + length arg) (ws3 @ SEMI # ws4) (if True then g @ arg else g) \<noteq> None"
      by (rule 5)
  qed
  have 3: "re_run ?t3 p (ws2 @ arg @ ws3 @ SEMI # ws4) g \<noteq> None" for p g
  proof (rule re_run_Plus_complete)
    show "ws2 \<noteq> []" by (rule assms(3))
    show "\<forall>x\<in>set ws2. in_cset Ws x" using assms(4) by simp
    show "re_run ?t4 (p + length ws2) (arg @ ws3 @ SEMI # ws4) (if False then g @ ws2 else g) \<noteq> None"
      by (rule 4)
  qed
  have 2: "re_run (map (\<lambda>c. One (Ch c)) (lit ''include'') @ ?t3) p
      (lit ''include'' @ ws2 @ arg @ ws3 @ SEMI # ws4) g \<noteq> None" for p g
    unfolding re_run_lits by (rule 3)
  have 1: "re_run (Star Ws False # map (\<lambda>c. One (Ch c)) (lit ''include'') @ ?t3) 0
      (ws1 @ lit ''include'' @ ws2 @ arg @ ws3 @ SEMI # ws4) [] \<noteq> None"
  proof (rule re_run_Star_complete)
    show "\<forall>x\<in>set ws1. in_cset Ws x" using assms(2) by simp
    show "re_run (map (\<lambda>c. One (Ch c)) (lit ''include'') @ ?t3) (0 + length ws1)
      (lit ''include'' @ ws2 @ arg @ ws3 @ SEMI # ws4) (if False then [] @ ws1 else []) \<noteq> None"
      by (rule 2)
  qed
  then show ?thesis
    unfolding assms(1) by (simp add: re_match_def INCLUDE_RE_def lits_def)
qed

lemma strip_ws_pad:
  assumes "\<forall>x\<in>set a. isspace x" "\<forall>x\<in>set b. isspace x"
  shows "strip_ws (a @ m @ b) = strip_ws m"
proof -
  have l: "dropWhile isspace (a @ m @ b) = dropWhile isspace (m @ b)"
    using assms(1) by (simp add: dropWhile_append2)
  show ?thesis
  proof (cases "\<forall>x\<in>set m. isspace x")
    case True
    have e1: "lstrip_ws (a @ m @ b) = []"
      unfolding lstrip_ws_def l using True assms(2) by simp
    have e2: "lstrip_ws m = []"
      unfolding lstrip_ws_def using True by simp
    show ?thesis by (simp add: strip_ws_def e1 e2)
  next
    case False
    then obtain x where x: "x \<in> set m" "\<not> isspace x" by blast
    have e1: "lstrip_ws (a @ m @ b) = lstrip_ws m @ b"
      unfolding lstrip_ws_def l using x by (simp add: dropWhile_append1)
    have "dropWhile isspace (rev b @ rev (lstrip_ws m)) = dropWhile isspace (rev (lstrip_ws m))"
      using assms(2) by (subst dropWhile_append2) auto
    then have e2: "rstrip_ws (lstrip_ws m @ b) = rstrip_ws (lstrip_ws m)"
      by (simp add: rstrip_ws_def)
    show ?thesis by (simp add: strip_ws_def e1 e2)
  qed
qed

lemma unquote_cong: "strip_ws x = strip_ws y \<Longrightarrow> unquote x = unquote y"
  by (simp add: unquote_def)

lemma not_isspace_i: "\<not> isspace (of_char CHR ''i'')"
  by (simp add: isspace_def)

lemma include_decomposition_unique:
  assumes "ws1 @ lit ''include'' @ ws2 @ arg @ ws3 @ SEMI # ws4
         = ws1' @ lit ''include'' @ ws2' @ arg' @ ws3' @ SEMI # ws4'"
    and "\<forall>x\<in>set ws1. isspace x" "\<forall>x\<in>set ws2. isspace x" "SEMI \<notin> set arg"
      "\<forall>x\<in>set ws3. isspace x"
    and "\<forall>x\<in>set ws1'. isspace x" "\<forall>x\<in>set ws2'. isspace x" "SEMI \<notin> set arg'"
      "\<forall>x\<in>set ws3'. isspace x"
  shows "strip_ws arg = strip_ws arg'"
proof -
  have lead: "dropWhile isspace (w @ lit ''include'' @ t) = lit ''include'' @ t"
    if "\<forall>x\<in>set w. isspace x" for w t
    using that not_isspace_i by (simp add: dropWhile_append2 lit_def)
  from arg_cong [OF assms(1), of "dropWhile isspace"]
  have "lit ''include'' @ ws2 @ arg @ ws3 @ SEMI # ws4
      = lit ''include'' @ ws2' @ arg' @ ws3' @ SEMI # ws4'"
    by (simp only: lead [OF assms(2)] lead [OF assms(6)])
  then have e: "(ws2 @ arg @ ws3) @ SEMI # ws4 = (ws2' @ arg' @ ws3') @ SEMI # ws4'"
    by simp
  have n: "SEMI \<notin> set (ws2 @ arg @ ws3)" "SEMI \<notin> set (ws2' @ arg' @ ws3')"
    using assms(3,4,5,7,8,9) not_isspace_SEMI by auto
  from arg_cong [OF e, of "takeWhile (\<lambda>x. x \<noteq> SEMI)"]
  have "ws2 @ arg @ ws3 = ws2' @ arg' @ ws3'"
    by (simp only: takeWhile_first [OF n(1)] takeWhile_first [OF n(2)])
  then have "strip_ws (ws2 @ arg @ ws3) = strip_ws (ws2' @ arg' @ ws3')" by simp
  then show ?thesis
    by (simp only: strip_ws_pad [OF assms(3) assms(5)] strip_ws_pad [OF assms(7) assms(9)])
qed

lemma parse_include_path_iff:
  "parse_include_path line = Inr (Some p) \<longleftrightarrow>
     (\<exists>ws1 ws2 arg ws3 ws4.
        rstrip_char LF (uncomment line) = ws1 @ lit ''include'' @ ws2 @ arg @ ws3 @ SEMI # ws4
        \<and> (\<forall>x\<in>set ws1. isspace x) \<and> ws2 \<noteq> [] \<and> (\<forall>x\<in>set ws2. isspace x)
        \<and> arg \<noteq> [] \<and> SEMI \<notin> set arg
        \<and> (\<forall>x\<in>set ws3. isspace x) \<and> (\<forall>x\<in>set ws4. isspace x)
        \<and> p = unquote arg)"
  (is "?L \<longleftrightarrow> ?R")
proof
  assume l: ?L
  show ?R
  proof (cases "re_match INCLUDE_RE (rstrip_char LF (uncomment line))")
    case None
    with l show ?thesis by (simp add: parse_include_path_eq)
  next
    case (Some g)
    with l have p: "p = unquote g" by (simp add: parse_include_path_eq)
    from include_re_matchD [OF Some] obtain ws1 ws2 ws3 ws4 where
      "rstrip_char LF (uncomment line) = ws1 @ lit ''include'' @ ws2 @ g @ ws3 @ SEMI # ws4
       \<and> (\<forall>x\<in>set ws1. isspace x) \<and> ws2 \<noteq> [] \<and> (\<forall>x\<in>set ws2. isspace x)
       \<and> g \<noteq> [] \<and> SEMI \<notin> set g
       \<and> (\<forall>x\<in>set ws3. isspace x) \<and> (\<forall>x\<in>set ws4. isspace x)"
      by blast
    with p have "rstrip_char LF (uncomment line) = ws1 @ lit ''include'' @ ws2 @ g @ ws3 @ SEMI # ws4
       \<and> (\<forall>x\<in>set ws1. isspace x) \<and> ws2 \<noteq> [] \<and> (\<forall>x\<in>set ws2. isspace x)
       \<and> g \<noteq> [] \<and> SEMI \<notin> set g
       \<and> (\<forall>x\<in>set ws3. isspace x) \<and> (\<forall>x\<in>set ws4. isspace x)
       \<and> p = unquote g"
      by (elim conjE) (intro conjI; assumption)
    then show ?thesis
      by (intro exI)
  qed
next
  assume ?R
  then obtain ws1 ws2 arg ws3 ws4 where d:
    "rstrip_char LF (uncomment line) = ws1 @ lit ''include'' @ ws2 @ arg @ ws3 @ SEMI # ws4"
    "\<forall>x\<in>set ws1. isspace x" "ws2 \<noteq> []" "\<forall>x\<in>set ws2. isspace x"
    "arg \<noteq> []" "SEMI \<notin> set arg" "\<forall>x\<in>set ws3. isspace x" "\<forall>x\<in>set ws4. isspace x"
    and p: "p = unquote arg"
    by (elim exE conjE)
  from include_re_complete [OF d] obtain g
    where g: "re_match INCLUDE_RE (rstrip_char LF (uncomment line)) = Some g" by blast
  from include_re_matchD [OF g] obtain ws1' ws2' ws3' ws4' where
    "rstrip_char LF (uncomment line) = ws1' @ lit ''include'' @ ws2' @ g @ ws3' @ SEMI # ws4'
     \<and> (\<forall>x\<in>set ws1'. isspace x) \<and> ws2' \<noteq> [] \<and> (\<forall>x\<in>set ws2'. isspace x)
     \<and> g \<noteq> [] \<and> SEMI \<notin> set g
     \<and> (\<forall>x\<in>set ws3'. isspace x) \<and> (\<forall>x\<in>set ws4'. isspace x)"
    by blast
  then have d': "rstrip_char LF (uncomment line) = ws1' @ lit ''include'' @ ws2' @ g @ ws3' @ SEMI # ws4'"
    "\<forall>x\<in>set ws1'. isspace x" "\<forall>x\<in>set ws2'. isspace x" "SEMI \<notin> set g"
    "\<forall>x\<in>set ws3'. isspace x"
    by blast+
  have eq: "ws1 @ lit ''include'' @ ws2 @ arg @ ws3 @ SEMI # ws4
      = ws1' @ lit ''include'' @ ws2' @ g @ ws3' @ SEMI # ws4'"
    by (rule trans [OF d(1) [symmetric] d'(1)])
  have "strip_ws arg = strip_ws g"
    by (rule include_decomposition_unique [OF eq d(2,4,6,7) d'(2,3,4,5)])
  then have "unquote arg = unquote g" by (rule unquote_cong)
  with g p show ?L by (simp add: parse_include_path_eq)
qed

lemma http_open_re_iff:
  "re_match HTTP_OPEN_RE s \<noteq> None \<longleftrightarrow>
     (\<exists>ws1 ws2 rest. s = ws1 @ lit ''http'' @ ws2 @ LBRACE # rest
        \<and> (\<forall>x\<in>set ws1. isspace x) \<and> (\<forall>x\<in>set ws2. isspace x))"
  (is "?L \<longleftrightarrow> ?R")
proof
  assume ?L
  then obtain g where "re_run (Star Ws False # (map (\<lambda>c. One (Ch c)) (lit ''http'')
      @ [Star Ws False, One (Ch LBRACE)])) 0 s [] = Some g"
    by (auto simp: re_match_def HTTP_OPEN_RE_def lits_def)
  from re_run_Star_SomeD [OF this] obtain ws1 s1 where 1: "s = ws1 @ s1" "\<forall>x\<in>set ws1. isspace x"
    and r1: "re_run (map (\<lambda>c. One (Ch c)) (lit ''http'') @ [Star Ws False, One (Ch LBRACE)])
       (0 + length ws1) s1 [] = Some g"
    by auto
  from re_run_lits_SomeD [OF r1] obtain s2 where 2: "s1 = lit ''http'' @ s2"
    and r2: "re_run [Star Ws False, One (Ch LBRACE)] (0 + length ws1 + length (lit ''http'')) s2 [] = Some g"
    by blast
  from re_run_Star_SomeD [OF r2] obtain ws2 s3 where 3: "s2 = ws2 @ s3" "\<forall>x\<in>set ws2. isspace x"
    and r3: "re_run [One (Ch LBRACE)] (0 + length ws1 + length (lit ''http'') + length ws2) s3 [] = Some g"
    by auto
  from re_run_One_SomeD [OF r3] obtain x rest where "s3 = x # rest" "x = LBRACE" by auto
  with 1 2 3 have "s = ws1 @ lit ''http'' @ ws2 @ LBRACE # rest
        \<and> (\<forall>x\<in>set ws1. isspace x) \<and> (\<forall>x\<in>set ws2. isspace x)"
    by simp
  then show ?R by (intro exI)
next
  assume ?R
  then obtain ws1 ws2 rest where d: "s = ws1 @ lit ''http'' @ ws2 @ LBRACE # rest"
    "\<forall>x\<in>set ws1. isspace x" "\<forall>x\<in>set ws2. isspace x" by blast
  have 3: "re_run [Star Ws False, One (Ch LBRACE)] p (ws2 @ LBRACE # rest) g \<noteq> None" for p g
  proof (rule re_run_Star_complete)
    show "\<forall>x\<in>set ws2. in_cset Ws x" using d(3) by simp
    show "re_run [One (Ch LBRACE)] (p + length ws2) (LBRACE # rest) (if False then g @ ws2 else g) \<noteq> None"
      by simp
  qed
  have "re_run (Star Ws False # map (\<lambda>c. One (Ch c)) (lit ''http'') @ [Star Ws False, One (Ch LBRACE)])
      0 (ws1 @ lit ''http'' @ ws2 @ LBRACE # rest) [] \<noteq> None"
  proof (rule re_run_Star_complete)
    show "\<forall>x\<in>set ws1. in_cset Ws x" using d(2) by simp
    show "re_run (map (\<lambda>c. One (Ch c)) (lit ''http'') @ [Star Ws False, One (Ch LBRACE)])
       (0 + length ws1) (lit ''http'' @ ws2 @ LBRACE # rest) (if False then [] @ ws1 else []) \<noteq> None"
      unfolding re_run_lits by (rule 3)
  qed
  then show ?L unfolding d(1) by (simp add: re_match_def HTTP_OPEN_RE_def lits_def)
qed

lemma http_alone_re_iff:
  "re_match HTTP_ALONE_RE s \<noteq> None \<longleftrightarrow>
     (\<exists>ws1 ws2. s = ws1 @ lit ''http'' @ ws2
        \<and> (\<forall>x\<in>set ws1. isspace x) \<and> (\<forall>x\<in>set ws2. isspace x))"
  (is "?L \<longleftrightarrow> ?R")
proof
  assume ?L
  then obtain g where "re_run (Star Ws False # (map (\<lambda>c. One (Ch c)) (lit ''http'')
      @ [Star Ws False, Eol])) 0 s [] = Some g"
    by (auto simp: re_match_def HTTP_ALONE_RE_def lits_def)
  from re_run_Star_SomeD [OF this] obtain ws1 s1 where 1: "s = ws1 @ s1" "\<forall>x\<in>set ws1. isspace x"
    and r1: "re_run (map (\<lambda>c. One (Ch c)) (lit ''http'') @ [Star Ws False, Eol])
       (0 + length ws1) s1 [] = Some g"
    by auto
  from re_run_lits_SomeD [OF r1] obtain s2 where 2: "s1 = lit ''http'' @ s2"
    and r2: "re_run [Star Ws False, Eol] (0 + length ws1 + length (lit ''http'')) s2 [] = Some g"
    by blast
  from re_run_Star_SomeD [OF r2] obtain ws2 s3 where 3: "s2 = ws2 @ s3" "\<forall>x\<in>set ws2. isspace x"
    and r3: "re_run [Eol] (0 + length ws1 + length (lit ''http'') + length ws2) s3 [] = Some g"
    by auto
  from re_run_Eol_SomeD [OF r3] have "s3 = [] \<or> s3 = [LF]" by simp
  then have "\<forall>x\<in>set s3. isspace x" by (auto simp: isspace_LF)
  with 3 have "\<forall>x\<in>set s2. isspace x" by auto
  with 1 2 have "s = ws1 @ lit ''http'' @ s2
        \<and> (\<forall>x\<in>set ws1. isspace x) \<and> (\<forall>x\<in>set s2. isspace x)"
    by simp
  then show ?R by (intro exI)
next
  assume ?R
  then obtain ws1 ws2 where d: "s = ws1 @ lit ''http'' @ ws2"
    "\<forall>x\<in>set ws1. isspace x" "\<forall>x\<in>set ws2. isspace x" by blast
  have "re_run (Star Ws False # map (\<lambda>c. One (Ch c)) (lit ''http'') @ [Star Ws False, Eol])
      0 (ws1 @ lit ''http'' @ ws2) [] \<noteq> None"
  proof (rule re_run_Star_complete)
    show "\<forall>x\<in>set ws1. in_cset Ws x" using d(2) by simp
    show "re_run (map (\<lambda>c. One (Ch c)) (lit ''http'') @ [Star Ws False, Eol])
       (0 + length ws1) (lit ''http'' @ ws2) (if False then [] @ ws1 else []) \<noteq> None"
      unfolding re_run_lits using d(3) by (rule re_run_Star_Eol)
  qed
  then show ?L unfolding d(1) by (simp add: re_match_def HTTP_ALONE_RE_def lits_def)
qed

lemma brace_re_iff:
  "re_match BRACE_RE s \<noteq> None \<longleftrightarrow>
     (\<exists>ws rest. s = ws @ LBRACE # rest \<and> (\<forall>x\<in>set ws. isspace x))"
  (is "?L \<longleftrightarrow> ?R")
proof
  assume ?L
  then obtain g where "re_run [Star Ws False, One (Ch LBRACE)] 0 s [] = Some g"
    by (auto simp: re_match_def BRACE_RE_def)
  from re_run_Star_SomeD [OF this] obtain ws s1 where 1: "s = ws @ s1" "\<forall>x\<in>set ws. isspace x"
    and r1: "re_run [One (Ch LBRACE)] (0 + length ws) s1 [] = Some g"
    by auto
  from re_run_One_SomeD [OF r1] obtain x rest where "s1 = x # rest" "x = LBRACE" by auto
  with 1 have "s = ws @ LBRACE # rest \<and> (\<forall>x\<in>set ws. isspace x)" by simp
  then show ?R by (intro exI)
next
  assume ?R
  then obtain ws rest where d: "s = ws @ LBRACE # rest" "\<forall>x\<in>set ws. isspace x" by blast
  have "re_run [Star Ws False, One (Ch LBRACE)] 0 (ws @ LBRACE # rest) [] \<noteq> None"
  proof (rule re_run_Star_complete)
    show "\<forall>x\<in>set ws. in_cset Ws x" using d(2) by simp
    show "re_run [One (Ch LBRACE)] (0 + length ws) (LBRACE # rest) (if False then [] @ ws else []) \<noteq> None"
      by simp
  qed
  then show ?L unfolding d(1) by (simp add: re_match_def BRACE_RE_def)
qed

section \<open>The located block\<close>

text \<open>
  C1, as amended. For every list of lines, the locator returns, without raising, the
  located block: the scan runs top to bottom to the first line that matches the one-line
  form \<open>http {\<close> or the two-line form (\<open>http\<close> alone, the next line starting with \<open>{\<close>);
  the opening line is that line in the one-line form and the line after it, the one that
  starts with \<open>{\<close>, in the two-line form; the depth is accumulated from the opening line
  on, and the block ends at the first line strictly after the opening line where the
  depth is 0. Without an opening line, or when the depth never comes back to 0, the
  result is \<open>None\<close>. A line has the one-line form when its comment-stripped text is
  whitespace, \<open>http\<close>, whitespace and \<open>{\<close>, whatever follows; the two-line form holds at
  a line whose comment-stripped text is whitespace, \<open>http\<close> and whitespace to the end,
  when the next line exists and its comment-stripped text is whitespace and \<open>{\<close>,
  whatever follows.
\<close>

theorem find_http_block_located:
  "find_http_block lines = Inr (located_http_block lines)
   \<and> (one_line_form raw \<longleftrightarrow>
        (\<exists>ws1 ws2 rest. uncomment raw = ws1 @ lit ''http'' @ ws2 @ LBRACE # rest
           \<and> (\<forall>x\<in>set ws1. isspace x) \<and> (\<forall>x\<in>set ws2. isspace x)))
   \<and> (two_line_form lines i \<longleftrightarrow>
        (\<exists>ws1 ws2. uncomment (lines ! i) = ws1 @ lit ''http'' @ ws2
           \<and> (\<forall>x\<in>set ws1. isspace x) \<and> (\<forall>x\<in>set ws2. isspace x))
        \<and> i + 1 < length lines
        \<and> (\<exists>ws rest. uncomment (lines ! (i + 1)) = ws @ LBRACE # rest
              \<and> (\<forall>x\<in>set ws. isspace x)))"
  by (simp only: find_http_block_eq one_line_form_def two_line_form_def http_open_re_iff
      http_alone_re_iff brace_re_iff simp_thms)

theorem find_http_block_located_witness:
  "find_http_block [lit ''# main\<newline>'', lit ''http { # open\<newline>'', lit '' server { }\<newline>'',
       lit ''}\<newline>'', lit ''}\<newline>'']
     = Inr (Some \<lparr>start_line_index = 1, end_line_index = 3\<rparr>)
   \<and> find_http_block [lit ''http {\<newline>'', lit '' server {\<newline>'', lit ''}\<newline>''] = Inr None
   \<and> find_http_block [lit ''events {\<newline>'', lit ''}\<newline>''] = Inr None"
  using find_http_block_located [of "[lit ''# main\<newline>'', lit ''http { # open\<newline>'',
       lit '' server { }\<newline>'', lit ''}\<newline>'', lit ''}\<newline>'']" "[]" 0, THEN conjunct1]
    find_http_block_located [of "[lit ''http {\<newline>'', lit '' server {\<newline>'', lit ''}\<newline>'']"
      "[]" 0, THEN conjunct1]
    find_http_block_located [of "[lit ''events {\<newline>'', lit ''}\<newline>'']" "[]" 0, THEN conjunct1]
  by (simp add: locator patterns chars)

text \<open>
  C1 as it is stated takes the first line that matches either form as the opening line,
  which in the two-line form is the line of \<open>http\<close>. On \<open>http\<close>, \<open>{\<close>, \<open>}\<close> the locator
  returns the block that starts at line 1, the line of the brace; the claim's block starts
  at line 0. On \<open>http\<close>, \<open>{}\<close> and a third line the two blocks end at different lines
  as well: the depth is 0 at line 1, which is strictly after the line of \<open>http\<close> but not
  strictly after the line of the brace.
\<close>

theorem find_http_block_two_line_counterexample:
  "find_http_block [lit ''http\<newline>'', lit ''{\<newline>'', lit ''}\<newline>'']
     = Inr (Some \<lparr>start_line_index = 1, end_line_index = 2\<rparr>)
   \<and> claimed_http_block [lit ''http\<newline>'', lit ''{\<newline>'', lit ''}\<newline>'']
     = Some \<lparr>start_line_index = 0, end_line_index = 2\<rparr>
   \<and> find_http_block [lit ''http\<newline>'', lit ''{}\<newline>'', lit ''events {}\<newline>'']
     = Inr (Some \<lparr>start_line_index = 1, end_line_index = 2\<rparr>)
   \<and> claimed_http_block [lit ''http\<newline>'', lit ''{}\<newline>'', lit ''events {}\<newline>'']
     = Some \<lparr>start_line_index = 0, end_line_index = 1\<rparr>"
  by (simp add: find_http_block_eq claimed_http_block_def locator patterns chars)

section \<open>What the inclusion check and the command return\<close>

lemmas parser = parse_include_path_eq uncomment_def rstrip_char_def unquote_def strip_ws_def
  lstrip_ws_def rstrip_ws_def startswith_def endswith_def

lemmas matcher = include_targets_def include_abs_def include_rel_def removeprefix_def
  include_hit_def splitlines_keepends_def

lemma include_abs_nonempty: "include_abs d \<noteq> []"
  by (simp add: include_abs_def lit_def)

lemma include_rel_nonempty: "include_rel d \<noteq> []"
  by (simp add: include_rel_def lit_def)

lemma include_hit_Some:
  "include_hit (include_targets d) (Some p) \<longleftrightarrow> p = include_abs d \<or> p = include_rel d"
  using include_abs_nonempty [of d] include_rel_nonempty [of d]
  by (auto simp: include_hit_def include_targets_def)

lemma scan_block_eq:
  "scan_block targets rows =
     Inr (\<exists>raw\<in>set rows. \<exists>p. parse_include_path raw = Inr (Some p) \<and> include_hit targets (Some p))"
proof (induction rows)
  case Nil
  then show ?case by simp
next
  case (Cons raw rows)
  show ?case
  proof (cases "re_match INCLUDE_RE (rstrip_char LF (uncomment raw))")
    case None
    then have "parse_include_path raw = Inr None" by (simp add: parse_include_path_eq)
    with Cons show ?thesis by (simp add: include_hit_def)
  next
    case (Some g)
    then have "parse_include_path raw = Inr (Some (unquote g))" by (simp add: parse_include_path_eq)
    with Cons show ?thesis by auto
  qed
qed

lemma in_set_py_slice:
  assumes "e < length lines"
  shows "raw \<in> set (py_slice lines s (e + 1)) \<longleftrightarrow> (\<exists>i. s \<le> i \<and> i \<le> e \<and> raw = lines ! i)"
proof
  assume "raw \<in> set (py_slice lines s (e + 1))"
  then obtain j where j: "j < length (drop s (take (e + 1) lines))"
      "drop s (take (e + 1) lines) ! j = raw"
    unfolding py_slice_def in_set_conv_nth by blast
  from j(1) assms have lt: "s + j \<le> e" by simp
  with j(2) assms have "raw = lines ! (s + j)" by simp
  with lt show "\<exists>i. s \<le> i \<and> i \<le> e \<and> raw = lines ! i" by (intro exI [of _ "s + j"]) simp
next
  assume "\<exists>i. s \<le> i \<and> i \<le> e \<and> raw = lines ! i"
  then obtain i where i: "s \<le> i" "i \<le> e" "raw = lines ! i" by blast
  have len: "i - s < length (drop s (take (e + 1) lines))" using i assms by simp
  have "drop s (take (e + 1) lines) ! (i - s) = lines ! i" using i assms by simp
  with len i(3) show "raw \<in> set (py_slice lines s (e + 1))"
    unfolding py_slice_def in_set_conv_nth by blast
qed

lemma nginx_conf_includes_snippets_located:
  assumes "fs conf_path = Readable content"
  shows "nginx_conf_includes_snippets fs conf_path d =
     (case located_http_block (splitlines_keepends content) of
        None \<Rightarrow> Inr False
      | Some block \<Rightarrow>
          scan_block (include_targets d)
            (py_slice (splitlines_keepends content) (start_line_index block)
               (end_line_index block + 1)))"
proof -
  have rt: "read_text fs conf_path = Inr content"
    using assms by (simp add: read_text_def)
  show ?thesis
    unfolding nginx_conf_includes_snippets_def rt Let_def find_http_block_eq
    by (simp split: option.splits)
qed

lemma nginx_conf_includes_snippets_eq:
  assumes "fs conf_path = Readable content"
  shows "nginx_conf_includes_snippets fs conf_path d =
     Inr (\<exists>b i p. find_http_block (splitlines_keepends content) = Inr (Some b)
            \<and> start_line_index b \<le> i \<and> i \<le> end_line_index b
            \<and> parse_include_path (splitlines_keepends content ! i) = Inr (Some p)
            \<and> (p = include_abs d \<or> p = include_rel d))"
proof (cases "located_http_block (splitlines_keepends content)")
  note loc = nginx_conf_includes_snippets_located [of fs conf_path content d, OF assms]
  case None
  then have "find_http_block (splitlines_keepends content) = Inr None"
    by (simp add: find_http_block_eq)
  then have "\<not> (\<exists>b i p. find_http_block (splitlines_keepends content) = Inr (Some b)
            \<and> start_line_index b \<le> i \<and> i \<le> end_line_index b
            \<and> parse_include_path (splitlines_keepends content ! i) = Inr (Some p)
            \<and> (p = include_abs d \<or> p = include_rel d))"
    by simp
  moreover have "nginx_conf_includes_snippets fs conf_path d = Inr False"
    using None by (simp add: loc)
  ultimately show ?thesis by simp
next
  note loc = nginx_conf_includes_snippets_located [of fs conf_path content d, OF assms]
  case (Some b)
  let ?lines = "splitlines_keepends content"
  have fb: "find_http_block ?lines = Inr (Some b)"
    using Some by (simp add: find_http_block_eq)
  from find_http_block_SomeD(2) [OF fb] have e: "end_line_index b < length ?lines" .
  have run: "nginx_conf_includes_snippets fs conf_path d =
      Inr (\<exists>raw\<in>set (py_slice ?lines (start_line_index b) (end_line_index b + 1)).
             \<exists>p. parse_include_path raw = Inr (Some p) \<and> include_hit (include_targets d) (Some p))"
    using Some by (simp add: loc scan_block_eq)
  have "(\<exists>raw\<in>set (py_slice ?lines (start_line_index b) (end_line_index b + 1)).
             \<exists>p. parse_include_path raw = Inr (Some p) \<and> include_hit (include_targets d) (Some p))
     \<longleftrightarrow> (\<exists>b' i p. find_http_block ?lines = Inr (Some b')
            \<and> start_line_index b' \<le> i \<and> i \<le> end_line_index b'
            \<and> parse_include_path (?lines ! i) = Inr (Some p)
            \<and> (p = include_abs d \<or> p = include_rel d))"
    (is "?L \<longleftrightarrow> ?R")
  proof
    assume ?L
    then obtain raw p where raw: "raw \<in> set (py_slice ?lines (start_line_index b) (end_line_index b + 1))"
      and p: "parse_include_path raw = Inr (Some p)" "include_hit (include_targets d) (Some p)"
      by blast
    from raw obtain i where i: "start_line_index b \<le> i" "i \<le> end_line_index b" "raw = ?lines ! i"
      unfolding in_set_py_slice [OF e] by blast
    from p(2) have "p = include_abs d \<or> p = include_rel d" by (simp only: include_hit_Some)
    with fb i p(1) show ?R by blast
  next
    assume ?R
    then obtain b' i p where r: "find_http_block ?lines = Inr (Some b')"
      "start_line_index b' \<le> i" "i \<le> end_line_index b'"
      "parse_include_path (?lines ! i) = Inr (Some p)" "p = include_abs d \<or> p = include_rel d"
      by blast
    from r(1) fb have "b' = b" by simp
    with r(2,3) have "?lines ! i \<in> set (py_slice ?lines (start_line_index b) (end_line_index b + 1))"
      unfolding in_set_py_slice [OF e] by blast
    moreover from r(5) have "include_hit (include_targets d) (Some p)" by (simp only: include_hit_Some)
    ultimately show ?L using r(4) by blast
  qed
  with run show ?thesis by (simp only:)
qed

text \<open>
  What \<open>strip\<close> and \<open>_unquote\<close> do. The stripped text is the text without the
  whitespace at its two ends: what is cut off is whitespace, and what is left neither
  starts nor ends with whitespace. \<open>_unquote\<close> strips its argument; when the stripped
  text starts and ends with a double quote, or starts and ends with a single quote, the
  first and the last character go and the inside is stripped again; otherwise the
  stripped text is the result. A stripped text that is one quote character alone starts
  and ends with it, and the result is the empty text.
\<close>

lemma lstrip_ws_split:
  "\<exists>a. s = a @ lstrip_ws s \<and> (\<forall>x\<in>set a. isspace x)"
proof -
  have "s = takeWhile isspace s @ lstrip_ws s" by (simp add: lstrip_ws_def)
  moreover have "\<forall>x\<in>set (takeWhile isspace s). isspace x" by (auto dest: set_takeWhileD)
  ultimately show ?thesis by blast
qed

lemma rstrip_ws_split:
  "\<exists>b. s = rstrip_ws s @ b \<and> (\<forall>x\<in>set b. isspace x)"
proof -
  have "rev (takeWhile isspace (rev s) @ dropWhile isspace (rev s)) = s"
    by (simp only: takeWhile_dropWhile_id rev_rev_ident)
  then have "s = rstrip_ws s @ rev (takeWhile isspace (rev s))"
    by (simp only: rev_append rstrip_ws_def)
  moreover have "\<forall>x\<in>set (rev (takeWhile isspace (rev s))). isspace x"
    by (auto dest: set_takeWhileD)
  ultimately show ?thesis by blast
qed

lemma lstrip_ws_first: "lstrip_ws s = x # rest \<Longrightarrow> \<not> isspace x"
  unfolding lstrip_ws_def by (metis hd_dropWhile list.distinct(1) list.sel(1))

lemma rstrip_ws_last: "rstrip_ws s = front @ [x] \<Longrightarrow> \<not> isspace x"
proof -
  assume a: "rstrip_ws s = front @ [x]"
  then have "dropWhile isspace (rev s) = x # rev front"
    by (metis rev.simps(2) rev_rev_ident rev_swap rstrip_ws_def rev_append append_Cons append_Nil)
  then show ?thesis by (metis hd_dropWhile list.distinct(1) list.sel(1))
qed

lemma strip_ws_split:
  "\<exists>a b. s = a @ strip_ws s @ b \<and> (\<forall>x\<in>set a. isspace x) \<and> (\<forall>x\<in>set b. isspace x)"
proof -
  obtain a where a: "s = a @ lstrip_ws s" "\<forall>x\<in>set a. isspace x"
    using lstrip_ws_split by blast
  obtain b where b: "lstrip_ws s = rstrip_ws (lstrip_ws s) @ b" "\<forall>x\<in>set b. isspace x"
    using rstrip_ws_split by blast
  have "s = a @ strip_ws s @ b" using a(1) b(1) by (simp add: strip_ws_def)
  with a(2) b(2) show ?thesis by blast
qed

lemma strip_ws_last: "strip_ws s = front @ [x] \<Longrightarrow> \<not> isspace x"
  unfolding strip_ws_def by (rule rstrip_ws_last)

lemma strip_ws_first:
  assumes "strip_ws s = x # rest"
  shows "\<not> isspace x"
proof -
  obtain b where b: "lstrip_ws s = rstrip_ws (lstrip_ws s) @ b"
    using rstrip_ws_split by blast
  with assms have "lstrip_ws s = x # (rest @ b)" by (simp add: strip_ws_def)
  then show ?thesis by (rule lstrip_ws_first)
qed

lemma unquote_quoted:
  assumes "q = DQUOTE \<or> q = SQUOTE" and "strip_ws raw = q # inner @ [q]"
  shows "unquote raw = strip_ws inner"
proof -
  let ?v = "q # inner @ [q]"
  have s: "startswith ?v [q]" by (simp add: startswith_def)
  have e: "endswith ?v [q]" by (simp add: endswith_def)
  have i: "take (length ?v - 2) (drop 1 ?v) = inner" by simp
  from assms(1) s e have "(startswith ?v [DQUOTE] \<and> endswith ?v [DQUOTE])
      \<or> (startswith ?v [SQUOTE] \<and> endswith ?v [SQUOTE])"
    by blast
  then show ?thesis
    unfolding unquote_def assms(2) Let_def i by (simp only: if_True)
qed

lemma wrapped_cases:
  assumes "startswith v [q]" "endswith v [q]"
  shows "v = [q] \<or> (\<exists>inner. v = q # inner @ [q])"
proof -
  from assms(1) obtain t where t: "v = q # t"
    by (cases v) (simp_all add: startswith_def)
  show ?thesis
  proof (cases t rule: rev_cases)
    case Nil
    with t show ?thesis by simp
  next
    case (snoc inner y)
    with t assms(2) have "y = q" by (simp add: endswith_def)
    with t snoc show ?thesis by simp
  qed
qed

lemma unquote_single:
  assumes "q = DQUOTE \<or> q = SQUOTE" and "strip_ws raw = [q]"
  shows "unquote raw = []"
proof -
  have "startswith [q] [q]" "endswith [q] [q]" by (simp_all add: startswith_def endswith_def)
  with assms(1) have "(startswith [q] [DQUOTE] \<and> endswith [q] [DQUOTE])
      \<or> (startswith [q] [SQUOTE] \<and> endswith [q] [SQUOTE])"
    by blast
  then show ?thesis
    unfolding unquote_def assms(2) Let_def by (simp add: strip_ws_def lstrip_ws_def rstrip_ws_def)
qed

lemma unquote_plain:
  assumes "\<not> (\<exists>q. (q = DQUOTE \<or> q = SQUOTE)
             \<and> (strip_ws raw = [q] \<or> (\<exists>inner. strip_ws raw = q # inner @ [q])))"
  shows "unquote raw = strip_ws raw"
proof -
  have "\<not> (startswith (strip_ws raw) [q] \<and> endswith (strip_ws raw) [q])"
    if "q = DQUOTE \<or> q = SQUOTE" for q
    using wrapped_cases [of "strip_ws raw" q] assms that by blast
  then have "\<not> ((startswith (strip_ws raw) [DQUOTE] \<and> endswith (strip_ws raw) [DQUOTE])
      \<or> (startswith (strip_ws raw) [SQUOTE] \<and> endswith (strip_ws raw) [SQUOTE]))"
    by blast
  then show ?thesis
    unfolding unquote_def Let_def by (simp only: if_False)
qed

text \<open>
  C2. For every file content and snippets directory, the check returns true exactly when
  the locator finds a block and some line of its span, both ends included, parses as an
  include directive whose path equals one of the two targets; when no block is found, or
  no line of the span does, it returns false. A line parses as an include directive with
  path \<open>p\<close> exactly when its comment-stripped text, without the newlines at its end, is
  whitespace, \<open>include\<close>, whitespace, an argument without \<open>;\<close>, whitespace, \<open>;\<close> and
  whitespace to the end, and \<open>p\<close> is the argument unquoted. Unquoting an argument whose
  stripped text is an inner text between two double quotes, or between two single quotes,
  gives the inner text stripped; for every other argument it gives the stripped text, but for
  the stripped text that is one quote character alone it gives the empty text, which is
  neither target. Stripping removes whitespace, and only whitespace, from the two ends,
  and leaves a text that neither starts nor ends with whitespace.
\<close>

theorem nginx_conf_includes_snippets_iff:
  assumes "fs conf_path = Readable content"
  shows "nginx_conf_includes_snippets fs conf_path d =
     Inr (\<exists>b i p. find_http_block (splitlines_keepends content) = Inr (Some b)
            \<and> start_line_index b \<le> i \<and> i \<le> end_line_index b
            \<and> parse_include_path (splitlines_keepends content ! i) = Inr (Some p)
            \<and> (p = include_abs d \<or> p = include_rel d))
   \<and> (parse_include_path line = Inr (Some path) \<longleftrightarrow>
        (\<exists>ws1 ws2 arg ws3 ws4.
           rstrip_char LF (uncomment line) = ws1 @ lit ''include'' @ ws2 @ arg @ ws3 @ SEMI # ws4
           \<and> (\<forall>x\<in>set ws1. isspace x) \<and> ws2 \<noteq> [] \<and> (\<forall>x\<in>set ws2. isspace x)
           \<and> arg \<noteq> [] \<and> SEMI \<notin> set arg
           \<and> (\<forall>x\<in>set ws3. isspace x) \<and> (\<forall>x\<in>set ws4. isspace x)
           \<and> path = unquote arg))
   \<and> (\<forall>q inner. (q = DQUOTE \<or> q = SQUOTE) \<and> strip_ws raw = q # inner @ [q]
          \<longrightarrow> unquote raw = strip_ws inner)
   \<and> (\<forall>q. (q = DQUOTE \<or> q = SQUOTE) \<and> strip_ws raw = [q] \<longrightarrow> unquote raw = [])
   \<and> (\<not> (\<exists>q. (q = DQUOTE \<or> q = SQUOTE)
              \<and> (strip_ws raw = [q] \<or> (\<exists>inner. strip_ws raw = q # inner @ [q])))
          \<longrightarrow> unquote raw = strip_ws raw)
   \<and> (\<exists>a b. s = a @ strip_ws s @ b \<and> (\<forall>x\<in>set a. isspace x) \<and> (\<forall>x\<in>set b. isspace x))
   \<and> (\<forall>x rest. strip_ws s = x # rest \<longrightarrow> \<not> isspace x)
   \<and> (\<forall>front x. strip_ws s = front @ [x] \<longrightarrow> \<not> isspace x)
   \<and> include_abs d \<noteq> [] \<and> include_rel d \<noteq> []"
proof (intro conjI)
  show "nginx_conf_includes_snippets fs conf_path d =
     Inr (\<exists>b i p. find_http_block (splitlines_keepends content) = Inr (Some b)
            \<and> start_line_index b \<le> i \<and> i \<le> end_line_index b
            \<and> parse_include_path (splitlines_keepends content ! i) = Inr (Some p)
            \<and> (p = include_abs d \<or> p = include_rel d))"
    by (rule nginx_conf_includes_snippets_eq [of fs conf_path content d, OF assms])
  show "parse_include_path line = Inr (Some path) \<longleftrightarrow>
        (\<exists>ws1 ws2 arg ws3 ws4.
           rstrip_char LF (uncomment line) = ws1 @ lit ''include'' @ ws2 @ arg @ ws3 @ SEMI # ws4
           \<and> (\<forall>x\<in>set ws1. isspace x) \<and> ws2 \<noteq> [] \<and> (\<forall>x\<in>set ws2. isspace x)
           \<and> arg \<noteq> [] \<and> SEMI \<notin> set arg
           \<and> (\<forall>x\<in>set ws3. isspace x) \<and> (\<forall>x\<in>set ws4. isspace x)
           \<and> path = unquote arg)"
    by (rule parse_include_path_iff [of line path])
  show "\<forall>q inner. (q = DQUOTE \<or> q = SQUOTE) \<and> strip_ws raw = q # inner @ [q]
          \<longrightarrow> unquote raw = strip_ws inner"
    using unquote_quoted [of _ raw] by blast
  show "\<forall>q. (q = DQUOTE \<or> q = SQUOTE) \<and> strip_ws raw = [q] \<longrightarrow> unquote raw = []"
    using unquote_single [of _ raw] by blast
  show "\<not> (\<exists>q. (q = DQUOTE \<or> q = SQUOTE)
              \<and> (strip_ws raw = [q] \<or> (\<exists>inner. strip_ws raw = q # inner @ [q])))
          \<longrightarrow> unquote raw = strip_ws raw"
    using unquote_plain [of raw] by (rule impI)
  show "\<exists>a b. s = a @ strip_ws s @ b \<and> (\<forall>x\<in>set a. isspace x) \<and> (\<forall>x\<in>set b. isspace x)"
    by (rule strip_ws_split)
  show "\<forall>x rest. strip_ws s = x # rest \<longrightarrow> \<not> isspace x"
    using strip_ws_first [of s] by blast
  show "\<forall>front x. strip_ws s = front @ [x] \<longrightarrow> \<not> isspace x"
    using strip_ws_last [of s] by blast
  show "include_abs d \<noteq> []" by (rule include_abs_nonempty)
  show "include_rel d \<noteq> []" by (rule include_rel_nonempty)
qed

theorem nginx_conf_includes_snippets_iff_witness:
  "nginx_conf_includes_snippets
      (\<lambda>p. Readable (lit ''http {\<newline>    include \" /etc/nginx/conf.d/*.conf \";\<newline>}\<newline>''))
      (lit ''/etc/nginx/nginx.conf'') (lit ''/etc/nginx/conf.d'') = Inr True
   \<and> (\<exists>b i p. find_http_block
            (splitlines_keepends
               (lit ''http {\<newline>    include \" /etc/nginx/conf.d/*.conf \";\<newline>}\<newline>''))
            = Inr (Some b)
          \<and> start_line_index b \<le> i \<and> i \<le> end_line_index b
          \<and> parse_include_path
               (splitlines_keepends
                  (lit ''http {\<newline>    include \" /etc/nginx/conf.d/*.conf \";\<newline>}\<newline>'') ! i)
             = Inr (Some p)
          \<and> (p = include_abs (lit ''/etc/nginx/conf.d'') \<or> p = include_rel (lit ''/etc/nginx/conf.d'')))
   \<and> parse_include_path (lit ''    include \" /etc/nginx/conf.d/*.conf \";\<newline>'')
       = Inr (Some (lit ''/etc/nginx/conf.d/*.conf''))
   \<and> unquote (lit ''\" /etc/nginx/conf.d/*.conf \"'') = lit ''/etc/nginx/conf.d/*.conf''
   \<and> unquote (lit '' '' @ SQUOTE # lit ''conf.d/*.conf '' @ [SQUOTE]) = lit ''conf.d/*.conf''
   \<and> unquote (lit ''\"conf.d/*.conf'' @ [SQUOTE]) = lit ''\"conf.d/*.conf'' @ [SQUOTE]
   \<and> unquote (lit '' conf.d/*.conf '') = lit ''conf.d/*.conf''
   \<and> unquote (lit '' \" '') = []
   \<and> (\<exists>a b. lit ''  conf.d/*.conf   '' = a @ lit ''conf.d/*.conf'' @ b
          \<and> (\<forall>x\<in>set a. isspace x) \<and> (\<forall>x\<in>set b. isspace x))"
proof -
  let ?text = "lit ''http {\<newline>    include \" /etc/nginx/conf.d/*.conf \";\<newline>}\<newline>''"
  let ?fs = "\<lambda>p::pystr. Readable ?text"
  let ?conf = "lit ''/etc/nginx/nginx.conf''"
  let ?dir = "lit ''/etc/nginx/conf.d''"
  let ?line = "lit ''    include \" /etc/nginx/conf.d/*.conf \";\<newline>''"
  let ?arg = "lit ''\" /etc/nginx/conf.d/*.conf \"''"
  let ?inner = "lit '' /etc/nginx/conf.d/*.conf ''"
  let ?abs = "lit ''/etc/nginx/conf.d/*.conf''"
  let ?single = "lit '' '' @ SQUOTE # lit ''conf.d/*.conf '' @ [SQUOTE]"
  let ?mixed = "lit ''\"conf.d/*.conf'' @ [SQUOTE]"
  let ?bare = "lit '' conf.d/*.conf ''"
  let ?lone = "lit '' \" ''"
  let ?padded = "lit ''  conf.d/*.conf   ''"
  let ?rel = "lit ''conf.d/*.conf''"
  have fs: "?fs ?conf = Readable ?text" by simp
  note t = nginx_conf_includes_snippets_iff [of ?fs ?conf ?text ?dir, OF fs]
  have run: "nginx_conf_includes_snippets ?fs ?conf ?dir = Inr True"
    unfolding nginx_conf_includes_snippets_located [of ?fs _ _ _, OF fs]
    by (simp add: matcher locator parser patterns chars)
  from t [of "[]" "[]" "[]" "[]", THEN conjunct1] run
  have 1: "\<exists>b i p. find_http_block (splitlines_keepends ?text) = Inr (Some b)
          \<and> start_line_index b \<le> i \<and> i \<le> end_line_index b
          \<and> parse_include_path (splitlines_keepends ?text ! i) = Inr (Some p)
          \<and> (p = include_abs ?dir \<or> p = include_rel ?dir)"
    by simp
  have sa: "strip_ws ?arg = DQUOTE # ?inner @ [DQUOTE]"
    by (simp add: parser chars)
  have si: "strip_ws ?inner = ?abs"
    by (simp add: parser chars)
  from t [of "[]" "[]" ?arg "[]"] sa have "unquote ?arg = strip_ws ?inner"
    by blast
  with si have 3: "unquote ?arg = ?abs" by simp
  have split: "rstrip_char LF (uncomment ?line)
      = lit ''    '' @ lit ''include'' @ lit '' '' @ ?arg @ [] @ SEMI # []"
    by (simp add: parser chars)
  have "\<exists>ws1 ws2 arg ws3 ws4.
           rstrip_char LF (uncomment ?line) = ws1 @ lit ''include'' @ ws2 @ arg @ ws3 @ SEMI # ws4
           \<and> (\<forall>x\<in>set ws1. isspace x) \<and> ws2 \<noteq> [] \<and> (\<forall>x\<in>set ws2. isspace x)
           \<and> arg \<noteq> [] \<and> SEMI \<notin> set arg
           \<and> (\<forall>x\<in>set ws3. isspace x) \<and> (\<forall>x\<in>set ws4. isspace x)
           \<and> ?abs = unquote arg"
  proof (intro exI conjI)
    show "rstrip_char LF (uncomment ?line)
      = lit ''    '' @ lit ''include'' @ lit '' '' @ ?arg @ [] @ SEMI # []"
      by (rule split)
    show "\<forall>x\<in>set (lit ''    ''). isspace x" by (simp add: chars)
    show "lit '' '' \<noteq> []" by (simp add: chars)
    show "\<forall>x\<in>set (lit '' ''). isspace x" by (simp add: chars)
    show "?arg \<noteq> []" by (simp add: chars)
    show "SEMI \<notin> set ?arg" by (simp add: chars)
    show "\<forall>x\<in>set []. isspace x" by simp
    show "\<forall>x\<in>set []. isspace x" by simp
    show "?abs = unquote ?arg" by (simp only: 3)
  qed
  with t [of ?line ?abs "[]" "[]"]
  have 2: "parse_include_path ?line = Inr (Some ?abs)"
    by blast
  have ss: "strip_ws ?single = SQUOTE # lit ''conf.d/*.conf '' @ [SQUOTE]"
    by (simp add: parser chars)
  have ssi: "strip_ws (lit ''conf.d/*.conf '') = ?rel"
    by (simp add: parser chars)
  from t [of "[]" "[]" ?single "[]"] ss have "unquote ?single = strip_ws (lit ''conf.d/*.conf '')"
    by blast
  with ssi have 4: "unquote ?single = ?rel" by simp
  have sm: "strip_ws ?mixed = ?mixed"
    by (simp add: parser chars)
  have nm: "\<not> (\<exists>q. (q = DQUOTE \<or> q = SQUOTE)
              \<and> (strip_ws ?mixed = [q] \<or> (\<exists>inner. strip_ws ?mixed = q # inner @ [q])))"
    unfolding sm by (auto simp add: chars)
  from t [of "[]" "[]" ?mixed "[]"] nm have "unquote ?mixed = strip_ws ?mixed"
    by blast
  with sm have 5: "unquote ?mixed = ?mixed" by simp
  have sb: "strip_ws ?bare = ?rel"
    by (simp add: parser chars)
  have nb: "\<not> (\<exists>q. (q = DQUOTE \<or> q = SQUOTE)
              \<and> (strip_ws ?bare = [q] \<or> (\<exists>inner. strip_ws ?bare = q # inner @ [q])))"
    unfolding sb by (auto simp add: chars)
  from t [of "[]" "[]" ?bare "[]"] nb have "unquote ?bare = strip_ws ?bare"
    by blast
  with sb have 6: "unquote ?bare = ?rel" by simp
  have sl: "strip_ws ?lone = [DQUOTE]"
    by (simp add: parser chars)
  from t [of "[]" "[]" ?lone "[]"] sl have 7: "unquote ?lone = []"
    by blast
  have sp: "strip_ws ?padded = ?rel"
    by (simp add: parser chars)
  from t [of "[]" "[]" "[]" ?padded]
  have "\<exists>a b. ?padded = a @ strip_ws ?padded @ b
          \<and> (\<forall>x\<in>set a. isspace x) \<and> (\<forall>x\<in>set b. isspace x)"
    by blast
  then have 8: "\<exists>a b. ?padded = a @ ?rel @ b
          \<and> (\<forall>x\<in>set a. isspace x) \<and> (\<forall>x\<in>set b. isspace x)"
    unfolding sp .
  from run 1 2 3 4 5 6 7 8 show ?thesis by blast
qed

text \<open>
  C4. An include directive after the line that holds the closing brace of the block is
  honored when the block is closed on its opening line. In the file of the two lines
  \<open>http {}\<close> and \<open>include conf.d/*.conf;\<close> the first line holds the opening token and
  the closing brace, one of each, and no include directive; the depth is 0 at the end of
  that line. The scan for the end of the block accepts a depth of 0 only after the
  opening line, so the located span runs on to the second line, where the depth is 0
  again, and the include directive of that line counts: the check returns true, and the
  command ends with status 0 and prints \<open>yes\<close>.
\<close>

theorem include_after_one_line_block_honored:
  "splitlines_keepends (lit ''http {}\<newline>include conf.d/*.conf;\<newline>'')
     = [lit ''http {}\<newline>'', lit ''include conf.d/*.conf;\<newline>'']
   \<and> find_http_block [lit ''http {}\<newline>'', lit ''include conf.d/*.conf;\<newline>'']
     = Inr (Some \<lparr>start_line_index = 0, end_line_index = 1\<rparr>)
   \<and> count_char (uncomment (lit ''http {}\<newline>'')) LBRACE = 1
   \<and> count_char (uncomment (lit ''http {}\<newline>'')) RBRACE = 1
   \<and> depth_through [lit ''http {}\<newline>'', lit ''include conf.d/*.conf;\<newline>''] 0 0 = 0
   \<and> parse_include_path (lit ''http {}\<newline>'') = Inr None
   \<and> parse_include_path (lit ''include conf.d/*.conf;\<newline>'')
     = Inr (Some (include_rel (lit ''/etc/nginx/conf.d'')))
   \<and> nginx_conf_includes_snippets
       (\<lambda>p. Readable (lit ''http {}\<newline>include conf.d/*.conf;\<newline>''))
       (lit ''/etc/nginx/nginx.conf'') (lit ''/etc/nginx/conf.d'') = Inr True
   \<and> cmd_includes_snippets (\<lambda>p. p)
       (\<lambda>p. Readable (lit ''http {}\<newline>include conf.d/*.conf;\<newline>''))
       \<lparr>conf = lit ''/etc/nginx/nginx.conf'', snippets_dir = lit ''/etc/nginx/conf.d'', verbose = True\<rparr>
     = Inr \<lparr>exit_status = 0, stdout_lines = [lit ''yes''], stderr_lines = []\<rparr>"
proof -
  let ?text = "lit ''http {}\<newline>include conf.d/*.conf;\<newline>''"
  let ?fs = "\<lambda>p::pystr. Readable ?text"
  let ?args = "\<lparr>conf = lit ''/etc/nginx/nginx.conf'', snippets_dir = lit ''/etc/nginx/conf.d'', verbose = True\<rparr>"
  have fs: "?fs (lit ''/etc/nginx/nginx.conf'') = Readable ?text" by simp
  have 1: "splitlines_keepends ?text = [lit ''http {}\<newline>'', lit ''include conf.d/*.conf;\<newline>'']"
    by (simp add: splitlines_keepends_def chars)
  have 2: "find_http_block [lit ''http {}\<newline>'', lit ''include conf.d/*.conf;\<newline>'']
     = Inr (Some \<lparr>start_line_index = 0, end_line_index = 1\<rparr>)"
    by (simp add: find_http_block_eq locator patterns chars)
  have 3: "count_char (uncomment (lit ''http {}\<newline>'')) LBRACE = 1"
    by (simp add: locator chars)
  have 4: "count_char (uncomment (lit ''http {}\<newline>'')) RBRACE = 1"
    by (simp add: locator chars)
  have 5: "depth_through [lit ''http {}\<newline>'', lit ''include conf.d/*.conf;\<newline>''] 0 0 = 0"
    by (simp add: locator chars)
  have 6: "parse_include_path (lit ''http {}\<newline>'') = Inr None"
    by (simp add: parser patterns chars)
  have 7: "parse_include_path (lit ''include conf.d/*.conf;\<newline>'')
     = Inr (Some (include_rel (lit ''/etc/nginx/conf.d'')))"
    by (simp add: matcher parser patterns chars)
  have 8: "nginx_conf_includes_snippets ?fs (lit ''/etc/nginx/nginx.conf'') (lit ''/etc/nginx/conf.d'')
      = Inr True"
    unfolding nginx_conf_includes_snippets_located [of ?fs _ _ _, OF fs]
    by (simp add: matcher locator parser patterns chars)
  have "path_exists ?fs (conf ?args)" by (simp add: path_exists_def)
  with 8 have 9: "cmd_includes_snippets (\<lambda>p. p) ?fs ?args
     = Inr \<lparr>exit_status = 0, stdout_lines = [lit ''yes''], stderr_lines = []\<rparr>"
    by (simp add: cmd_includes_snippets_def)
  from 1 2 3 4 5 6 7 8 9 show ?thesis by blast
qed

text \<open>
  C5, as amended. For every snippets directory the targets are two strings: the directory
  without its trailing slashes followed by \<open>/*.conf\<close>, and the same with the leading
  \<open>/etc/nginx/\<close> removed from the directory after its trailing slashes were removed, when
  the prefix is there. A path is a hit exactly when it equals one of the two.
\<close>

theorem include_hit_targets:
  "include_targets d =
     [rstrip_char SLASH d @ lit ''/*.conf'',
      removeprefix (lit ''/etc/nginx/'') (rstrip_char SLASH d) @ lit ''/*.conf'']
   \<and> (include_hit (include_targets d) (Some p) \<longleftrightarrow>
        p = rstrip_char SLASH d @ lit ''/*.conf''
        \<or> p = removeprefix (lit ''/etc/nginx/'') (rstrip_char SLASH d) @ lit ''/*.conf'')
   \<and> \<not> include_hit (include_targets d) None"
  by (simp add: include_hit_Some) (simp add: include_targets_def include_abs_def include_rel_def include_hit_def)

theorem include_hit_targets_witness:
  "include_targets (lit ''/etc/nginx/conf.d/'') = [lit ''/etc/nginx/conf.d/*.conf'', lit ''conf.d/*.conf'']
   \<and> include_hit (include_targets (lit ''/etc/nginx/conf.d/'')) (Some (lit ''conf.d/*.conf''))
   \<and> \<not> include_hit (include_targets (lit ''/etc/nginx/conf.d/'')) (Some (lit ''conf.d/*.conf ''))"
proof -
  have a: "rstrip_char SLASH (lit ''/etc/nginx/conf.d/'') @ lit ''/*.conf''
      = lit ''/etc/nginx/conf.d/*.conf''"
    by (simp add: rstrip_char_def chars)
  have r: "removeprefix (lit ''/etc/nginx/'') (rstrip_char SLASH (lit ''/etc/nginx/conf.d/''))
      @ lit ''/*.conf'' = lit ''conf.d/*.conf''"
    by (simp add: removeprefix_def startswith_def rstrip_char_def chars)
  have n: "lit ''conf.d/*.conf '' \<noteq> lit ''/etc/nginx/conf.d/*.conf''"
    "lit ''conf.d/*.conf '' \<noteq> lit ''conf.d/*.conf''"
    by (simp_all add: chars)
  note hit = include_hit_targets [of "lit ''/etc/nginx/conf.d/''" "lit ''conf.d/*.conf''",
      unfolded a r]
  note miss = include_hit_targets [of "lit ''/etc/nginx/conf.d/''" "lit ''conf.d/*.conf ''",
      unfolded a r]
  from hit miss n show ?thesis by blast
qed

text \<open>
  C5 as it is stated removes the prefix first. For the snippets directory \<open>/etc/nginx/\<close>
  that gives the second target \<open>/*.conf\<close>; the code strips the slash first, finds no
  prefix in \<open>/etc/nginx\<close> and has \<open>/etc/nginx/*.conf\<close> for both targets, so a block
  with \<open>include /*.conf;\<close> is not a match.
\<close>

theorem include_targets_order_counterexample:
  "claimed_include_rel (lit ''/etc/nginx/'') = lit ''/*.conf''
   \<and> include_targets (lit ''/etc/nginx/'') = [lit ''/etc/nginx/*.conf'', lit ''/etc/nginx/*.conf'']
   \<and> \<not> include_hit (include_targets (lit ''/etc/nginx/'')) (Some (lit ''/*.conf''))
   \<and> nginx_conf_includes_snippets (\<lambda>p. Readable (lit ''http {\<newline>    include /*.conf;\<newline>}\<newline>''))
        (lit ''/etc/nginx/nginx.conf'') (lit ''/etc/nginx/'') = Inr False"
proof -
  let ?fs = "\<lambda>p::pystr. Readable (lit ''http {\<newline>    include /*.conf;\<newline>}\<newline>'')"
  have fs: "?fs (lit ''/etc/nginx/nginx.conf'') = Readable (lit ''http {\<newline>    include /*.conf;\<newline>}\<newline>'')"
    by simp
  have "nginx_conf_includes_snippets ?fs (lit ''/etc/nginx/nginx.conf'') (lit ''/etc/nginx/'') = Inr False"
    unfolding nginx_conf_includes_snippets_located [of ?fs _ _ _, OF fs]
    by (simp add: matcher locator parser patterns chars)
  then show ?thesis
    by (simp add: claimed_include_rel_def matcher rstrip_char_def startswith_def chars)
qed

text \<open>
  The two orders give the same target for every other directory: they differ only when
  the directory is \<open>/etc/nginx/\<close> followed by nothing but slashes.
\<close>

lemma rstrip_char_not_prefix:
  assumes "\<not> startswith d p"
  shows "\<not> startswith (rstrip_char c d) p"
proof
  assume a: "startswith (rstrip_char c d) p"
  obtain t where t: "d = rstrip_char c d @ t" using rstrip_char_prefix by blast
  from a have "take (length p) (rstrip_char c d) = p" by (simp add: startswith_def)
  then have "length (take (length p) (rstrip_char c d)) = length p" by simp
  then have "length p \<le> length (rstrip_char c d)" by simp
  with a have "take (length p) (rstrip_char c d @ t) = p" by (simp add: startswith_def)
  with t have "startswith d p" by (simp add: startswith_def)
  with assms show False by simp
qed

lemma claimed_include_rel_agrees:
  assumes "\<not> (startswith d (lit ''/etc/nginx/'') \<and> (\<forall>x\<in>set (drop 11 d). x = SLASH))"
  shows "claimed_include_rel d = include_rel d"
proof (cases "startswith d (lit ''/etc/nginx/'')")
  case False
  then have "\<not> startswith (rstrip_char SLASH d) (lit ''/etc/nginx/'')"
    by (rule rstrip_char_not_prefix)
  with False show ?thesis by (simp add: claimed_include_rel_def include_rel_def removeprefix_def)
next
  case True
  have len: "length (lit ''/etc/nginx/'') = 11" by (simp add: lit_def)
  from True have d: "d = lit ''/etc/nginx/'' @ drop 11 d"
    by (metis append_take_drop_id len startswith_def)
  from True assms obtain x where "x \<in> set (drop 11 d)" "x \<noteq> SLASH" by blast
  then obtain t1 t2 where t: "drop 11 d = t1 @ x # t2" by (meson split_list)
  have "rstrip_char SLASH ((lit ''/etc/nginx/'' @ t1) @ x # t2)
      = (lit ''/etc/nginx/'' @ t1) @ x # rstrip_char SLASH t2"
    using \<open>x \<noteq> SLASH\<close> by (rule rstrip_char_after)
  moreover have "rstrip_char SLASH (t1 @ x # t2) = t1 @ x # rstrip_char SLASH t2"
    using \<open>x \<noteq> SLASH\<close> by (rule rstrip_char_after)
  ultimately have r: "rstrip_char SLASH (lit ''/etc/nginx/'' @ drop 11 d)
      = lit ''/etc/nginx/'' @ rstrip_char SLASH (drop 11 d)"
    unfolding t by simp
  have "rstrip_char SLASH d = lit ''/etc/nginx/'' @ rstrip_char SLASH (drop 11 d)"
    using r d by simp
  then have "removeprefix (lit ''/etc/nginx/'') (rstrip_char SLASH d) = rstrip_char SLASH (drop 11 d)"
    by (simp add: removeprefix_def startswith_def len)
  moreover have "removeprefix (lit ''/etc/nginx/'') d = drop 11 d"
    using True by (simp add: removeprefix_def len)
  ultimately show ?thesis by (simp add: claimed_include_rel_def include_rel_def)
qed

text \<open>
  C6. For every content, the comment stripper, the include parser, the block locator and
  the loop over the block return a value and never an exception, and so does the check on
  a file that can be read; when the locator finds no block the check returns false.
\<close>

theorem inclusion_check_never_raises:
  "(\<exists>s. strip_comments line = Inr s)
   \<and> (\<exists>r. parse_include_path line = Inr r)
   \<and> (\<exists>r. find_http_block lines = Inr r)
   \<and> (\<exists>r. scan_block targets rows = Inr r)
   \<and> (fs conf_path = Readable content \<longrightarrow>
        (\<exists>ok. nginx_conf_includes_snippets fs conf_path d = Inr ok))
   \<and> (fs conf_path = Readable content
        \<and> find_http_block (splitlines_keepends content) = Inr None \<longrightarrow>
        nginx_conf_includes_snippets fs conf_path d = Inr False)"
proof (intro conjI impI)
  show "\<exists>s. strip_comments line = Inr s" by (simp add: strip_comments_uncomment)
  show "\<exists>r. parse_include_path line = Inr r" by (simp add: parse_include_path_eq)
  show "\<exists>r. find_http_block lines = Inr r" by (simp add: find_http_block_eq)
  show "\<exists>r. scan_block targets rows = Inr r" by (simp add: scan_block_eq)
  show "\<exists>ok. nginx_conf_includes_snippets fs conf_path d = Inr ok"
    if "fs conf_path = Readable content"
    by (simp add: nginx_conf_includes_snippets_eq [of fs conf_path content d, OF that])
  show "nginx_conf_includes_snippets fs conf_path d = Inr False"
    if "fs conf_path = Readable content \<and> find_http_block (splitlines_keepends content) = Inr None"
  proof -
    from that have r: "fs conf_path = Readable content"
      and n: "find_http_block (splitlines_keepends content) = Inr None" by simp_all
    show ?thesis
      by (simp add: nginx_conf_includes_snippets_eq [of fs conf_path content d, OF r] n)
  qed
qed

theorem inclusion_check_never_raises_witness:
  "find_http_block (splitlines_keepends (lit ''}} garbage {\<newline>http {\<newline>  include ;;\<newline>'')) = Inr None
   \<and> nginx_conf_includes_snippets
       (\<lambda>p. Readable (lit ''}} garbage {\<newline>http {\<newline>  include ;;\<newline>''))
       (lit ''nginx.conf'') (lit ''conf.d'') = Inr False"
proof -
  let ?text = "lit ''}} garbage {\<newline>http {\<newline>  include ;;\<newline>''"
  let ?fs = "\<lambda>p::pystr. Readable ?text"
  have fs: "?fs (lit ''nginx.conf'') = Readable ?text" by simp
  have n: "find_http_block (splitlines_keepends ?text) = Inr None"
    by (simp add: find_http_block_eq splitlines_keepends_def locator patterns chars)
  from inclusion_check_never_raises
    [of "[]" "[]" "[]" "[]" ?fs "lit ''nginx.conf''" ?text "lit ''conf.d''"] fs n
  show ?thesis by blast
qed

text \<open>
  C8. When the path does not exist the command ends with status 2, prints nothing on
  standard output and computes no result. When the file is read, the status is 0 for a
  true result and 1 for a false one, and with the verbose flag the command prints \<open>yes\<close>
  or \<open>no\<close> accordingly.
\<close>

theorem cmd_includes_snippets_exit_status:
  "(fs (conf args) = Missing \<longrightarrow>
      cmd_includes_snippets path_str fs args =
        Inr \<lparr>exit_status = 2, stdout_lines = [],
             stderr_lines = [lit ''ERROR: nginx config not found: '' @ path_str (conf args)]\<rparr>)
   \<and> (fs (conf args) = Readable content \<longrightarrow>
        (\<exists>ok. nginx_conf_includes_snippets fs (conf args) (snippets_dir args) = Inr ok
           \<and> cmd_includes_snippets path_str fs args =
               Inr \<lparr>exit_status = (if ok then 0 else 1),
                    stdout_lines = (if verbose args then [if ok then lit ''yes'' else lit ''no''] else []),
                    stderr_lines = []\<rparr>))"
proof (intro conjI impI)
  show "cmd_includes_snippets path_str fs args =
        Inr \<lparr>exit_status = 2, stdout_lines = [],
             stderr_lines = [lit ''ERROR: nginx config not found: '' @ path_str (conf args)]\<rparr>"
    if "fs (conf args) = Missing"
    using that by (simp add: cmd_includes_snippets_def path_exists_def)
  show "\<exists>ok. nginx_conf_includes_snippets fs (conf args) (snippets_dir args) = Inr ok
           \<and> cmd_includes_snippets path_str fs args =
               Inr \<lparr>exit_status = (if ok then 0 else 1),
                    stdout_lines = (if verbose args then [if ok then lit ''yes'' else lit ''no''] else []),
                    stderr_lines = []\<rparr>"
    if r: "fs (conf args) = Readable content"
  proof -
    from nginx_conf_includes_snippets_eq [of fs "conf args" content "snippets_dir args", OF r]
    obtain ok where ok: "nginx_conf_includes_snippets fs (conf args) (snippets_dir args) = Inr ok"
      by blast
    have "path_exists fs (conf args)" using r by (simp add: path_exists_def)
    with ok have "cmd_includes_snippets path_str fs args =
               Inr \<lparr>exit_status = (if ok then 0 else 1),
                    stdout_lines = (if verbose args then [if ok then lit ''yes'' else lit ''no''] else []),
                    stderr_lines = []\<rparr>"
      by (simp add: cmd_includes_snippets_def)
    with ok show ?thesis by blast
  qed
qed

theorem cmd_includes_snippets_exit_status_witness:
  "cmd_includes_snippets (\<lambda>p. p) (\<lambda>p. Missing)
      \<lparr>conf = lit ''/etc/nginx/nginx.conf'', snippets_dir = lit ''/etc/nginx/conf.d'', verbose = True\<rparr>
     = Inr \<lparr>exit_status = 2, stdout_lines = [],
            stderr_lines = [lit ''ERROR: nginx config not found: /etc/nginx/nginx.conf'']\<rparr>
   \<and> cmd_includes_snippets (\<lambda>p. p)
       (\<lambda>p. Readable (lit ''http {\<newline>    include \"/etc/nginx/conf.d/*.conf\";\<newline>}\<newline>''))
       \<lparr>conf = lit ''/etc/nginx/nginx.conf'', snippets_dir = lit ''/etc/nginx/conf.d'', verbose = True\<rparr>
     = Inr \<lparr>exit_status = 0, stdout_lines = [lit ''yes''], stderr_lines = []\<rparr>
   \<and> cmd_includes_snippets (\<lambda>p. p) (\<lambda>p. Readable (lit ''http {\<newline>}\<newline>''))
       \<lparr>conf = lit ''/etc/nginx/nginx.conf'', snippets_dir = lit ''/etc/nginx/conf.d'', verbose = False\<rparr>
     = Inr \<lparr>exit_status = 1, stdout_lines = [], stderr_lines = []\<rparr>"
proof -
  let ?yes = "lit ''http {\<newline>    include \"/etc/nginx/conf.d/*.conf\";\<newline>}\<newline>''"
  let ?no = "lit ''http {\<newline>}\<newline>''"
  let ?a = "\<lparr>conf = lit ''/etc/nginx/nginx.conf'', snippets_dir = lit ''/etc/nginx/conf.d'', verbose = True\<rparr>"
  let ?q = "\<lparr>conf = lit ''/etc/nginx/nginx.conf'', snippets_dir = lit ''/etc/nginx/conf.d'', verbose = False\<rparr>"
  have m: "(\<lambda>p::pystr. Missing) (conf ?a) = Missing" by simp
  have y: "(\<lambda>p::pystr. Readable ?yes) (conf ?a) = Readable ?yes" by simp
  have n: "(\<lambda>p::pystr. Readable ?no) (conf ?q) = Readable ?no" by simp
  have ry: "nginx_conf_includes_snippets (\<lambda>p. Readable ?yes) (conf ?a) (snippets_dir ?a) = Inr True"
    unfolding nginx_conf_includes_snippets_located [of "\<lambda>p. Readable ?yes" _ _ _, OF y]
    by (simp add: matcher locator parser patterns chars)
  have rn: "nginx_conf_includes_snippets (\<lambda>p. Readable ?no) (conf ?q) (snippets_dir ?q) = Inr False"
    unfolding nginx_conf_includes_snippets_located [of "\<lambda>p. Readable ?no" _ _ _, OF n]
    by (simp add: matcher locator parser patterns chars)
  have msg: "lit ''ERROR: nginx config not found: '' @ lit ''/etc/nginx/nginx.conf''
      = lit ''ERROR: nginx config not found: /etc/nginx/nginx.conf''"
    by (simp add: lit_def)
  from cmd_includes_snippets_exit_status [of "\<lambda>p. Missing" ?a "\<lambda>p. p" "[]"] m msg
  have 1: "cmd_includes_snippets (\<lambda>p. p) (\<lambda>p. Missing) ?a
     = Inr \<lparr>exit_status = 2, stdout_lines = [],
            stderr_lines = [lit ''ERROR: nginx config not found: /etc/nginx/nginx.conf'']\<rparr>"
    by simp
  from cmd_includes_snippets_exit_status [of "\<lambda>p. Readable ?yes" ?a "\<lambda>p. p" ?yes] y ry
  have 2: "cmd_includes_snippets (\<lambda>p. p) (\<lambda>p. Readable ?yes) ?a
     = Inr \<lparr>exit_status = 0, stdout_lines = [lit ''yes''], stderr_lines = []\<rparr>"
    by auto
  from cmd_includes_snippets_exit_status [of "\<lambda>p. Readable ?no" ?q "\<lambda>p. p" ?no] n rn
  have 3: "cmd_includes_snippets (\<lambda>p. p) (\<lambda>p. Readable ?no) ?q
     = Inr \<lparr>exit_status = 1, stdout_lines = [], stderr_lines = []\<rparr>"
    by auto
  from 1 2 3 show ?thesis by blast
qed

end
